theory Spec2Isabelle
  imports Main
begin

section \<open>The callback parser (xml\_parse.h)\<close>

subsection \<open>Events, errors and the parser state\<close>

text \<open>
  The five callbacks of \<open>xml_callbacks\<close> only notify the user; the model records each
  call, in order, in the field \<open>events\<close> of the state.
\<close>

datatype xml_event =
    BeginTag string
  | EndTag string
  | TagText string
  | Comment string
  | Attribute string string

text \<open>
  \<open>xml_error\<close> prints a formatted message and throws. Each call site becomes one
  constructor that carries the arguments of the format string.
\<close>

datatype xml_fatal_error =
    PeekOutOfRange nat nat
  | MatchExpected char char int
  | NameExpected char int
  | ClosingNameMismatch string string int
  | HeaderMidway
  | ExpectedLessThan

record xml_state =
  buffer :: string
  pos :: nat
  line_number :: int
  column_number :: int
  events :: "xml_event list"

definition emit :: "xml_event \<Rightarrow> xml_state \<Rightarrow> xml_state" where
  "emit ev st = st\<lparr>events := events st @ [ev]\<rparr>"

definition xml_eof :: "xml_state \<Rightarrow> bool" where
  "xml_eof st = (pos st = length (buffer st))"

subsection \<open>Character classes (the C locale)\<close>

text \<open>
  \<open>isspace\<close>, \<open>isdigit\<close> and \<open>isalpha\<close> in the C locale: the space and the
  characters 9 to 13, the digits, the 52 letters. No byte above 127 is in a class.
\<close>

definition xml_is_space :: "char \<Rightarrow> bool" where
  "xml_is_space c = (c = CHR 0x20 \<or> (9 \<le> (of_char c :: nat) \<and> (of_char c :: nat) \<le> 13))"

definition xml_is_digit :: "char \<Rightarrow> bool" where
  "xml_is_digit c = (48 \<le> (of_char c :: nat) \<and> (of_char c :: nat) \<le> 57)"

definition xml_is_alpha :: "char \<Rightarrow> bool" where
  "xml_is_alpha c = ((65 \<le> (of_char c :: nat) \<and> (of_char c :: nat) \<le> 90)
                    \<or> (97 \<le> (of_char c :: nat) \<and> (of_char c :: nat) \<le> 122))"

definition xml_is_valid_name_char :: "char \<Rightarrow> bool" where
  "xml_is_valid_name_char c = (xml_is_alpha c \<or> xml_is_digit c \<or> c = CHR ''_'')"

subsection \<open>Cursor primitives\<close>

text \<open>
  \<open>pos\<close> starts at 0 and is only ever incremented, so it is a natural number here and
  the test \<open>fpos >= 0\<close> of \<open>xml_peek\<close> is always true; buffers are taken to be
  shorter than \<open>2^31\<close> characters, the range of the \<open>int\<close> fields. \<open>xml_advance\<close>
  reads \<open>buffer[pos]\<close> unchecked; at \<open>pos == size()\<close> that is the terminating NUL of the
  \<open>std::string\<close>, which is not a newline.
\<close>

definition xml_peek :: "xml_state \<Rightarrow> nat \<Rightarrow> xml_fatal_error + char" where
  "xml_peek st offset =
     (let fpos = pos st + offset in
      if fpos < length (buffer st) then Inr (buffer st ! fpos)
      else Inl (PeekOutOfRange fpos (length (buffer st))))"

definition xml_advance :: "xml_state \<Rightarrow> xml_state" where
  "xml_advance st =
     (if pos st < length (buffer st) \<and> buffer st ! pos st = CHR 0x0A
      then st\<lparr>pos := pos st + 1, line_number := line_number st + 1, column_number := 0\<rparr>
      else st\<lparr>pos := pos st + 1, column_number := column_number st + 1\<rparr>)"

definition xml_match :: "xml_state \<Rightarrow> char \<Rightarrow> xml_fatal_error + xml_state" where
  "xml_match st m =
     (case xml_peek st 0 of
        Inl e \<Rightarrow> Inl e
      | Inr c \<Rightarrow> if c \<noteq> m then Inl (MatchExpected m c (line_number st))
                else Inr (xml_advance st))"

function xml_eat_space :: "xml_state \<Rightarrow> xml_fatal_error + xml_state" where
  "xml_eat_space st =
     (if xml_eof st then Inr st
      else case xml_peek st 0 of
             Inl e \<Rightarrow> Inl e
           | Inr c \<Rightarrow> if xml_is_space c then xml_eat_space (xml_advance st) else Inr st)"
  by pat_completeness auto
termination
  by (relation "measure (\<lambda>st. length (buffer st) - pos st)")
     (auto simp: xml_peek_def xml_advance_def Let_def split: if_splits)

subsection \<open>Lexical productions\<close>

function xml_parse_string_loop :: "xml_state \<Rightarrow> string \<Rightarrow> xml_fatal_error + (string \<times> xml_state)" where
  "xml_parse_string_loop st str =
     (if xml_eof st then Inr (str, st)
      else case xml_peek st 0 of
             Inl e \<Rightarrow> Inl e
           | Inr c \<Rightarrow> if c \<noteq> CHR 0x22 then xml_parse_string_loop (xml_advance st) (str @ [c])
                     else Inr (str, st))"
  by pat_completeness auto
termination
  by (relation "measure (\<lambda>(st, str). length (buffer st) - pos st)")
     (auto simp: xml_peek_def xml_advance_def Let_def split: if_splits)

text \<open>The last statement before the return is \<open>str.push_back('\0')\<close>.\<close>

definition xml_parse_string :: "xml_state \<Rightarrow> xml_fatal_error + (string \<times> xml_state)" where
  "xml_parse_string st =
     (case xml_eat_space st of Inl e \<Rightarrow> Inl e | Inr st1 \<Rightarrow>
      case xml_match st1 (CHR 0x22) of Inl e \<Rightarrow> Inl e | Inr st2 \<Rightarrow>
      case xml_parse_string_loop st2 [] of Inl e \<Rightarrow> Inl e | Inr (str, st3) \<Rightarrow>
      case xml_match st3 (CHR 0x22) of Inl e \<Rightarrow> Inl e | Inr st4 \<Rightarrow>
      Inr (str @ [CHR 0x00], st4))"

function xml_read_name_loop :: "xml_state \<Rightarrow> string \<Rightarrow> xml_fatal_error + (string \<times> xml_state)" where
  "xml_read_name_loop st name =
     (if xml_eof st then Inr (name, st)
      else case xml_peek st 0 of
             Inl e \<Rightarrow> Inl e
           | Inr c \<Rightarrow> if xml_is_valid_name_char c
                     then xml_read_name_loop (xml_advance st) (name @ [c])
                     else Inr (name, st))"
  by pat_completeness auto
termination
  by (relation "measure (\<lambda>(st, name). length (buffer st) - pos st)")
     (auto simp: xml_peek_def xml_advance_def Let_def split: if_splits)

definition xml_read_name :: "xml_state \<Rightarrow> xml_fatal_error + (string \<times> xml_state)" where
  "xml_read_name st =
     (case xml_eat_space st of Inl e \<Rightarrow> Inl e | Inr st1 \<Rightarrow>
      case xml_peek st1 0 of Inl e \<Rightarrow> Inl e | Inr c \<Rightarrow>
      if \<not> xml_is_alpha c then Inl (NameExpected c (line_number st1))
      else xml_read_name_loop st1 [])"

function xml_read_text_loop :: "xml_state \<Rightarrow> string \<Rightarrow> xml_fatal_error + (string \<times> xml_state)" where
  "xml_read_text_loop st text =
     (if xml_eof st then Inr (text, st)
      else case xml_peek st 0 of
             Inl e \<Rightarrow> Inl e
           | Inr c \<Rightarrow> if c \<noteq> CHR ''<'' then xml_read_text_loop (xml_advance st) (text @ [c])
                     else Inr (text, st))"
  by pat_completeness auto
termination
  by (relation "measure (\<lambda>(st, text). length (buffer st) - pos st)")
     (auto simp: xml_peek_def xml_advance_def Let_def split: if_splits)

definition xml_read_text :: "xml_state \<Rightarrow> xml_fatal_error + (string \<times> xml_state)" where
  "xml_read_text st = xml_read_text_loop st []"

definition xml_read_closing_tag :: "xml_state \<Rightarrow> xml_fatal_error + (string \<times> xml_state)" where
  "xml_read_closing_tag st =
     (case xml_match st (CHR ''<'') of Inl e \<Rightarrow> Inl e | Inr st1 \<Rightarrow>
      case xml_match st1 (CHR ''/'') of Inl e \<Rightarrow> Inl e | Inr st2 \<Rightarrow>
      case xml_read_name st2 of Inl e \<Rightarrow> Inl e | Inr (name, st3) \<Rightarrow>
      case xml_match st3 (CHR ''>'') of Inl e \<Rightarrow> Inl e | Inr st4 \<Rightarrow>
      Inr (name, st4))"

text \<open>
  The loop of \<open>xml_read_comment\<close>, with its flag \<open>hyphen\<close>. Leaving the loop at the end
  of the input returns the empty string.
\<close>

function xml_read_comment_loop ::
    "xml_state \<Rightarrow> bool \<Rightarrow> string \<Rightarrow> xml_fatal_error + (string \<times> xml_state)" where
  "xml_read_comment_loop st hyphen comment =
     (if xml_eof st then Inr ([], st)
      else case xml_peek st 0 of
             Inl e \<Rightarrow> Inl e
           | Inr c \<Rightarrow>
               if c = CHR ''-'' \<and> \<not> hyphen then xml_read_comment_loop (xml_advance st) True comment
               else if c = CHR ''-'' \<and> hyphen then
                 (case xml_match (xml_advance st) (CHR ''>'') of
                    Inl e \<Rightarrow> Inl e
                  | Inr st1 \<Rightarrow> Inr (comment, st1))
               else xml_read_comment_loop (xml_advance st) False (comment @ [c]))"
  by pat_completeness auto
termination
  by (relation "measure (\<lambda>(st, hyphen, comment). length (buffer st) - pos st)")
     (auto simp: xml_peek_def xml_advance_def Let_def split: if_splits)

definition xml_read_comment :: "xml_state \<Rightarrow> xml_fatal_error + (string \<times> xml_state)" where
  "xml_read_comment st =
     (case xml_match st (CHR ''<'') of Inl e \<Rightarrow> Inl e | Inr st1 \<Rightarrow>
      case xml_match st1 (CHR ''!'') of Inl e \<Rightarrow> Inl e | Inr st2 \<Rightarrow>
      case xml_match st2 (CHR ''-'') of Inl e \<Rightarrow> Inl e | Inr st3 \<Rightarrow>
      case xml_match st3 (CHR ''-'') of Inl e \<Rightarrow> Inl e | Inr st4 \<Rightarrow>
      xml_read_comment_loop st4 False [])"

subsection \<open>Header, tags and the document\<close>

text \<open>
  The loops of \<open>xml_read_header\<close>, \<open>xml_read_tag\<close> and \<open>xml_read_document\<close> are
  \<open>while( !xml_eof(state) )\<close> loops whose bodies do not always consume input, and
  \<open>xml_read_tag\<close> calls itself. They take fuel: one unit for each loop iteration and for
  each call. \<open>None\<close> means that the fuel ran out before the function returned or threw.

  \<open>lookahead2 st a p\<close> is the condition \<open>xml_peek(state) == a && p(xml_peek(state,1))\<close>;
  the second peek is evaluated only when the first comparison holds, and either may throw.
\<close>

definition lookahead2 :: "xml_state \<Rightarrow> char \<Rightarrow> (char \<Rightarrow> bool) \<Rightarrow> xml_fatal_error + bool" where
  "lookahead2 st a p =
     (case xml_peek st 0 of
        Inl e \<Rightarrow> Inl e
      | Inr c \<Rightarrow> if c = a then (case xml_peek st 1 of Inl e \<Rightarrow> Inl e | Inr c1 \<Rightarrow> Inr (p c1))
                else Inr False)"

fun xml_read_header_loop :: "nat \<Rightarrow> xml_state \<Rightarrow> (xml_fatal_error + xml_state) option" where
  "xml_read_header_loop 0 st = None"
| "xml_read_header_loop (Suc n) st =
     (if xml_eof st then Some (Inr st) else
      case xml_eat_space st of Inl e \<Rightarrow> Some (Inl e) | Inr st1 \<Rightarrow>
      case xml_peek st1 0 of Inl e \<Rightarrow> Some (Inl e) | Inr c \<Rightarrow>
      if xml_is_alpha c then
        (case xml_read_name st1 of Inl e \<Rightarrow> Some (Inl e) | Inr (name, st2) \<Rightarrow>
         case xml_eat_space st2 of Inl e \<Rightarrow> Some (Inl e) | Inr st3 \<Rightarrow>
         case xml_match st3 (CHR ''='') of Inl e \<Rightarrow> Some (Inl e) | Inr st4 \<Rightarrow>
         case xml_parse_string st4 of Inl e \<Rightarrow> Some (Inl e) | Inr (val, st5) \<Rightarrow>
         xml_read_header_loop n st5)
      else
        case lookahead2 st1 (CHR ''?'') (\<lambda>c1. c1 = CHR ''>'') of Inl e \<Rightarrow> Some (Inl e)
        | Inr closing \<Rightarrow>
            if closing then
              (case xml_match st1 (CHR ''?'') of Inl e \<Rightarrow> Some (Inl e) | Inr st2 \<Rightarrow>
               case xml_match st2 (CHR ''>'') of Inl e \<Rightarrow> Some (Inl e) | Inr st3 \<Rightarrow>
               case xml_eat_space st3 of Inl e \<Rightarrow> Some (Inl e) | Inr st4 \<Rightarrow>
               Some (Inr st4))
            else xml_read_header_loop n st1)"

definition xml_read_header :: "nat \<Rightarrow> xml_state \<Rightarrow> (xml_fatal_error + xml_state) option" where
  "xml_read_header n st =
     (case xml_match st (CHR ''<'') of Inl e \<Rightarrow> Some (Inl e) | Inr st1 \<Rightarrow>
      case xml_match st1 (CHR ''?'') of Inl e \<Rightarrow> Some (Inl e) | Inr st2 \<Rightarrow>
      case xml_match st2 (CHR ''x'') of Inl e \<Rightarrow> Some (Inl e) | Inr st3 \<Rightarrow>
      case xml_match st3 (CHR ''m'') of Inl e \<Rightarrow> Some (Inl e) | Inr st4 \<Rightarrow>
      case xml_match st4 (CHR ''l'') of Inl e \<Rightarrow> Some (Inl e) | Inr st5 \<Rightarrow>
      xml_read_header_loop n st5)"

text \<open>
  The attribute loop of \<open>xml_read_tag\<close>. The flag of the result says how the loop was
  left: \<open>True\<close> for the \<open>return\<close> after \<open>/>\<close>, \<open>False\<close> for the \<open>break\<close> after \<open>>\<close>
  and for the end of the input, after both of which the body loop follows.
\<close>

fun xml_read_tag_attributes ::
    "nat \<Rightarrow> string \<Rightarrow> xml_state \<Rightarrow> (xml_fatal_error + (bool \<times> xml_state)) option" where
  "xml_read_tag_attributes 0 tag_name st = None"
| "xml_read_tag_attributes (Suc n) tag_name st =
     (if xml_eof st then Some (Inr (False, st)) else
      case xml_eat_space st of Inl e \<Rightarrow> Some (Inl e) | Inr st1 \<Rightarrow>
      case xml_peek st1 0 of Inl e \<Rightarrow> Some (Inl e) | Inr c \<Rightarrow>
      if xml_is_alpha c then
        (case xml_read_name st1 of Inl e \<Rightarrow> Some (Inl e) | Inr (attrib_name, st2) \<Rightarrow>
         case xml_eat_space st2 of Inl e \<Rightarrow> Some (Inl e) | Inr st3 \<Rightarrow>
         case xml_match st3 (CHR ''='') of Inl e \<Rightarrow> Some (Inl e) | Inr st4 \<Rightarrow>
         case xml_parse_string st4 of Inl e \<Rightarrow> Some (Inl e) | Inr (attrib_value, st5) \<Rightarrow>
         xml_read_tag_attributes n tag_name (emit (Attribute attrib_name attrib_value) st5))
      else if c = CHR ''>'' then
        (case xml_match st1 (CHR ''>'') of Inl e \<Rightarrow> Some (Inl e) | Inr st2 \<Rightarrow>
         Some (Inr (False, st2)))
      else
        case lookahead2 st1 (CHR ''/'') (\<lambda>c1. c1 = CHR ''>'') of Inl e \<Rightarrow> Some (Inl e)
        | Inr closing \<Rightarrow>
            if closing then
              (case xml_match st1 (CHR ''/'') of Inl e \<Rightarrow> Some (Inl e) | Inr st2 \<Rightarrow>
               case xml_match st2 (CHR ''>'') of Inl e \<Rightarrow> Some (Inl e) | Inr st3 \<Rightarrow>
               case xml_eat_space (emit (EndTag tag_name) st3) of Inl e \<Rightarrow> Some (Inl e)
               | Inr st4 \<Rightarrow> Some (Inr (True, st4)))
            else xml_read_tag_attributes n tag_name st1)"

fun xml_read_tag :: "nat \<Rightarrow> xml_state \<Rightarrow> (xml_fatal_error + xml_state) option"
and xml_read_tag_body :: "nat \<Rightarrow> string \<Rightarrow> xml_state \<Rightarrow> (xml_fatal_error + xml_state) option" where
  "xml_read_tag 0 st = None"
| "xml_read_tag (Suc n) st =
     (case xml_eat_space st of Inl e \<Rightarrow> Some (Inl e) | Inr st1 \<Rightarrow>
      case xml_match st1 (CHR ''<'') of Inl e \<Rightarrow> Some (Inl e) | Inr st2 \<Rightarrow>
      case xml_read_name st2 of Inl e \<Rightarrow> Some (Inl e) | Inr (tag_name, st3) \<Rightarrow>
      case xml_read_tag_attributes n tag_name (emit (BeginTag tag_name) st3) of
        None \<Rightarrow> None
      | Some (Inl e) \<Rightarrow> Some (Inl e)
      | Some (Inr (returned, st4)) \<Rightarrow>
          if returned then Some (Inr st4) else xml_read_tag_body n tag_name st4)"
| "xml_read_tag_body 0 tag_name st = None"
| "xml_read_tag_body (Suc n) tag_name st =
     (if xml_eof st then Some (Inr st) else
      case xml_eat_space st of Inl e \<Rightarrow> Some (Inl e) | Inr st1 \<Rightarrow>
      case lookahead2 st1 (CHR ''<'') (\<lambda>c1. c1 = CHR ''/'') of Inl e \<Rightarrow> Some (Inl e)
      | Inr closing \<Rightarrow>
      if closing then
        (case xml_read_closing_tag st1 of Inl e \<Rightarrow> Some (Inl e) | Inr (close_name, st2) \<Rightarrow>
         if close_name \<noteq> tag_name
         then Some (Inl (ClosingNameMismatch close_name tag_name (line_number st2)))
         else Some (Inr (emit (EndTag tag_name) st2)))
      else
      case lookahead2 st1 (CHR ''<'') (\<lambda>c1. c1 = CHR ''!'') of Inl e \<Rightarrow> Some (Inl e)
      | Inr is_comment \<Rightarrow>
      if is_comment then
        (case xml_read_comment st1 of Inl e \<Rightarrow> Some (Inl e) | Inr (comment, st2) \<Rightarrow>
         xml_read_tag_body n tag_name (emit (Comment comment) st2))
      else
      case lookahead2 st1 (CHR ''<'') (\<lambda>c1. c1 \<noteq> CHR ''/'') of Inl e \<Rightarrow> Some (Inl e)
      | Inr is_child \<Rightarrow>
      if is_child then
        (case xml_read_tag n st1 of
           None \<Rightarrow> None
         | Some (Inl e) \<Rightarrow> Some (Inl e)
         | Some (Inr st2) \<Rightarrow> xml_read_tag_body n tag_name st2)
      else
        (case xml_read_text st1 of Inl e \<Rightarrow> Some (Inl e) | Inr (tag_text, st2) \<Rightarrow>
         xml_read_tag_body n tag_name (emit (TagText tag_text) st2)))"

text \<open>
  The local variable \<open>first\<close> of \<open>xml_read_document\<close> is initialised to \<open>true\<close> and
  no statement of the function assigns to it, so every iteration sees the same value.
\<close>

fun xml_read_document_loop ::
    "nat \<Rightarrow> bool \<Rightarrow> xml_state \<Rightarrow> (xml_fatal_error + xml_state) option" where
  "xml_read_document_loop 0 first st = None"
| "xml_read_document_loop (Suc n) first st =
     (if xml_eof st then Some (Inr st) else
      case xml_peek st 0 of Inl e \<Rightarrow> Some (Inl e) | Inr c \<Rightarrow>
      if c = CHR ''<'' then
        (case xml_peek st 1 of Inl e \<Rightarrow> Some (Inl e) | Inr c1 \<Rightarrow>
         case (if c1 = CHR ''?'' then
                 (if \<not> first then Some (Inl HeaderMidway) else xml_read_header n st)
               else if c1 = CHR ''!'' then
                 (case xml_read_comment st of Inl e \<Rightarrow> Some (Inl e)
                  | Inr (comment, st1) \<Rightarrow> Some (Inr (emit (Comment comment) st1)))
               else if xml_is_alpha c1 then xml_read_tag n st
               else Some (Inr st)) of
           None \<Rightarrow> None
         | Some (Inl e) \<Rightarrow> Some (Inl e)
         | Some (Inr st1) \<Rightarrow>
             (case xml_eat_space st1 of Inl e \<Rightarrow> Some (Inl e)
              | Inr st2 \<Rightarrow> xml_read_document_loop n first st2))
      else Some (Inl ExpectedLessThan))"

definition xml_read_document :: "nat \<Rightarrow> xml_state \<Rightarrow> (xml_fatal_error + xml_state) option" where
  "xml_read_document n st =
     (case xml_eat_space st of Inl e \<Rightarrow> Some (Inl e)
      | Inr st1 \<Rightarrow> xml_read_document_loop n True st1)"

text \<open>The state \<open>{ buffer, 0, 0, 0, &callbacks }\<close> that a parse starts from.\<close>

definition xml_initial_state :: "string \<Rightarrow> xml_state" where
  "xml_initial_state b =
     \<lparr>buffer = b, pos = 0, line_number = 0, column_number = 0, events = []\<rparr>"

subsection \<open>Names\<close>

text \<open>
  The strings that \<open>xml_read_name\<close> reads as one name: a letter followed by letters,
  digits and underscores.
\<close>

definition xml_name :: "string \<Rightarrow> bool" where
  "xml_name nm = (nm \<noteq> [] \<and> xml_is_alpha (hd nm) \<and> (\<forall>x\<in>set nm. xml_is_valid_name_char x))"

section \<open>The document tree (xml\_dom.h)\<close>

subsection \<open>Entities in a heap\<close>

text \<open>
  Entities are allocated with \<open>new\<close> and refer to each other by pointer: a child holds a
  pointer to its parent, a parent holds the pointers of its children. The heap is the list
  of the entities allocated so far and a pointer is an index into it; \<open>NULL\<close> is \<open>None\<close>.
  A failed \<open>assert\<close> aborts the program; dereferencing a pointer outside the heap and
  \<open>back()\<close> or \<open>pop_back()\<close> on an empty list have no defined behaviour. Each is a
  failure value here. \<open>UsageError\<close> is the signal of the serializer below.
\<close>

datatype xml_dom_entity_type =
    XML_DOM_INVALID
  | XML_DOM_DOCUMENT
  | XML_DOM_TAG
  | XML_DOM_ATTRIBUTE
  | XML_DOM_COMMENT

type_synonym addr = nat

record xml_dom_entity =
  m_type :: xml_dom_entity_type
  m_parent :: "addr option"
  m_child :: "addr list"
  m_index :: int
  m_name :: string
  m_value :: string

type_synonym heap = "xml_dom_entity list"

datatype dom_failure =
    AssertionFailed
  | InvalidPointer
  | EmptyStack
  | UsageError
  | Thrown xml_fatal_error

definition deref :: "heap \<Rightarrow> addr \<Rightarrow> dom_failure + xml_dom_entity" where
  "deref h a = (if a < length h then Inr (h ! a) else Inl InvalidPointer)"

text \<open>\<open>new xml_dom_entity()\<close>: the default constructor, at a fresh address.\<close>

definition new_entity :: "heap \<Rightarrow> heap \<times> addr" where
  "new_entity h =
     (h @ [\<lparr>m_type = XML_DOM_INVALID, m_parent = None, m_child = [], m_index = - 1,
             m_name = [], m_value = []\<rparr>], length h)"

definition set_type :: "heap \<Rightarrow> addr \<Rightarrow> xml_dom_entity_type \<Rightarrow> dom_failure + heap" where
  "set_type h this t =
     (case deref h this of Inl f \<Rightarrow> Inl f
      | Inr e \<Rightarrow> Inr (h[this := e\<lparr>m_type := t\<rparr>]))"

definition set_name :: "heap \<Rightarrow> addr \<Rightarrow> string \<Rightarrow> dom_failure + heap" where
  "set_name h this name =
     (case deref h this of Inl f \<Rightarrow> Inl f
      | Inr e \<Rightarrow> if m_type e = XML_DOM_INVALID then Inl AssertionFailed
                else Inr (h[this := e\<lparr>m_name := name\<rparr>]))"

definition set_value :: "heap \<Rightarrow> addr \<Rightarrow> string \<Rightarrow> dom_failure + heap" where
  "set_value h this v =
     (case deref h this of Inl f \<Rightarrow> Inl f
      | Inr e \<Rightarrow> if m_type e = XML_DOM_INVALID then Inl AssertionFailed
                else Inr (h[this := e\<lparr>m_value := v\<rparr>]))"

definition get_name :: "heap \<Rightarrow> addr \<Rightarrow> dom_failure + string" where
  "get_name h this =
     (case deref h this of Inl f \<Rightarrow> Inl f
      | Inr e \<Rightarrow> if m_type e = XML_DOM_INVALID then Inl AssertionFailed else Inr (m_name e))"

definition get_value :: "heap \<Rightarrow> addr \<Rightarrow> dom_failure + string" where
  "get_value h this =
     (case deref h this of Inl f \<Rightarrow> Inl f
      | Inr e \<Rightarrow> if m_type e = XML_DOM_INVALID then Inl AssertionFailed else Inr (m_value e))"

definition num_children :: "heap \<Rightarrow> addr \<Rightarrow> dom_failure + int" where
  "num_children h this =
     (case deref h this of Inl f \<Rightarrow> Inl f
      | Inr e \<Rightarrow> if m_type e = XML_DOM_INVALID then Inl AssertionFailed
                else Inr (int (length (m_child e))))"

definition get_child :: "heap \<Rightarrow> addr \<Rightarrow> int \<Rightarrow> dom_failure + addr" where
  "get_child h this index =
     (case deref h this of Inl f \<Rightarrow> Inl f
      | Inr e \<Rightarrow>
          if m_type e = XML_DOM_INVALID then Inl AssertionFailed
          else case num_children h this of Inl f \<Rightarrow> Inl f
               | Inr n \<Rightarrow> if \<not> (index \<ge> 0 \<and> index < n) then Inl AssertionFailed
                         else Inr (m_child e ! nat index))"

subsection \<open>Mutation\<close>

text \<open>
  \<open>add_child\<close> executes \<open>child->m_parent = this; child->m_index = num_children();
  m_child.push_back( child );\<close> in this order; the second heap update reads the heap left
  by the first, so that \<open>child == this\<close> is covered.
\<close>

definition add_child :: "heap \<Rightarrow> addr \<Rightarrow> addr \<Rightarrow> dom_failure + heap" where
  "add_child h this child =
     (case deref h this of Inl f \<Rightarrow> Inl f
      | Inr e \<Rightarrow>
          if m_type e = XML_DOM_INVALID then Inl AssertionFailed
          else case deref h child of Inl f \<Rightarrow> Inl f
               | Inr c \<Rightarrow>
                   let h1 = h[child := c\<lparr>m_parent := Some this,
                                          m_index := int (length (m_child e))\<rparr>]
                   in Inr (h1[this := (h1 ! this)\<lparr>m_child := m_child (h1 ! this) @ [child]\<rparr>]))"

definition add_tag :: "heap \<Rightarrow> addr \<Rightarrow> string \<Rightarrow> dom_failure + (heap \<times> addr)" where
  "add_tag h this name =
     (case deref h this of Inl f \<Rightarrow> Inl f
      | Inr e \<Rightarrow>
          if \<not> (m_type e = XML_DOM_TAG \<or> m_type e = XML_DOM_DOCUMENT) then Inl AssertionFailed
          else let (h1, tag) = new_entity h in
               case set_type h1 tag XML_DOM_TAG of Inl f \<Rightarrow> Inl f | Inr h2 \<Rightarrow>
               case set_name h2 tag name of Inl f \<Rightarrow> Inl f | Inr h3 \<Rightarrow>
               case add_child h3 this tag of Inl f \<Rightarrow> Inl f | Inr h4 \<Rightarrow>
               Inr (h4, tag))"

definition add_attribute :: "heap \<Rightarrow> addr \<Rightarrow> string \<Rightarrow> string \<Rightarrow> dom_failure + (heap \<times> addr)" where
  "add_attribute h this name v =
     (case deref h this of Inl f \<Rightarrow> Inl f
      | Inr e \<Rightarrow>
          if \<not> (m_type e = XML_DOM_TAG \<or> m_type e = XML_DOM_DOCUMENT) then Inl AssertionFailed
          else let (h1, attr) = new_entity h in
               case set_type h1 attr XML_DOM_ATTRIBUTE of Inl f \<Rightarrow> Inl f | Inr h2 \<Rightarrow>
               case set_name h2 attr name of Inl f \<Rightarrow> Inl f | Inr h3 \<Rightarrow>
               case set_value h3 attr v of Inl f \<Rightarrow> Inl f | Inr h4 \<Rightarrow>
               case add_child h4 this attr of Inl f \<Rightarrow> Inl f | Inr h5 \<Rightarrow>
               Inr (h5, attr))"

definition add_comment :: "heap \<Rightarrow> addr \<Rightarrow> string \<Rightarrow> dom_failure + (heap \<times> addr)" where
  "add_comment h this comment =
     (case deref h this of Inl f \<Rightarrow> Inl f
      | Inr e \<Rightarrow>
          if \<not> (m_type e = XML_DOM_TAG \<or> m_type e = XML_DOM_DOCUMENT) then Inl AssertionFailed
          else let (h1, comm) = new_entity h in
               case set_type h1 comm XML_DOM_COMMENT of Inl f \<Rightarrow> Inl f | Inr h2 \<Rightarrow>
               case set_value h2 comm comment of Inl f \<Rightarrow> Inl f | Inr h3 \<Rightarrow>
               case add_child h3 this comm of Inl f \<Rightarrow> Inl f | Inr h4 \<Rightarrow>
               Inr (h4, comm))"

subsection \<open>Navigation\<close>

text \<open>
  The overloads of \<open>first_child\<close>, \<open>next_child\<close> and \<open>next_sibling\<close> that take a type
  carry the suffix \<open>_of_type\<close>. Their \<open>while( child )\<close> loops follow stored indices, which
  a heap need not keep increasing, so they take fuel. In \<open>next_child\<close> and
  \<open>previous_child\<close> the condition is \<open>m_index >= 0 && m_index < num_children()-1\<close>:
  \<open>num_children()\<close>, with its assertion on the receiver, is called only when the index
  is not negative.
\<close>

definition first_child :: "heap \<Rightarrow> addr \<Rightarrow> dom_failure + addr option" where
  "first_child h this =
     (case num_children h this of Inl f \<Rightarrow> Inl f
      | Inr n \<Rightarrow> if n > 0 then (case get_child h this 0 of Inl f \<Rightarrow> Inl f | Inr c \<Rightarrow> Inr (Some c))
                else Inr None)"

definition next_child :: "heap \<Rightarrow> addr \<Rightarrow> addr \<Rightarrow> dom_failure + addr option" where
  "next_child h this child =
     (case deref h child of Inl f \<Rightarrow> Inl f
      | Inr c \<Rightarrow>
          if m_parent c \<noteq> Some this then Inl AssertionFailed
          else if m_index c \<ge> 0 then
            (case num_children h this of Inl f \<Rightarrow> Inl f
             | Inr n \<Rightarrow>
                 if m_index c < n - 1
                 then (case get_child h this (m_index c + 1) of Inl f \<Rightarrow> Inl f
                       | Inr r \<Rightarrow> Inr (Some r))
                 else Inr None)
          else Inr None)"

definition previous_child :: "heap \<Rightarrow> addr \<Rightarrow> addr \<Rightarrow> dom_failure + addr option" where
  "previous_child h this child =
     (case deref h child of Inl f \<Rightarrow> Inl f
      | Inr c \<Rightarrow>
          if m_parent c \<noteq> Some this then Inl AssertionFailed
          else if m_index c \<ge> 0 then
            (case num_children h this of Inl f \<Rightarrow> Inl f
             | Inr n \<Rightarrow>
                 if m_index c < n - 1
                 then (case get_child h this (m_index c - 1) of Inl f \<Rightarrow> Inl f
                       | Inr r \<Rightarrow> Inr (Some r))
                 else Inr None)
          else Inr None)"

fun next_child_scan ::
    "nat \<Rightarrow> heap \<Rightarrow> addr \<Rightarrow> addr option \<Rightarrow> xml_dom_entity_type
       \<Rightarrow> (dom_failure + addr option) option" where
  "next_child_scan 0 h this child t = None"
| "next_child_scan (Suc n) h this child t =
     (case child of
        None \<Rightarrow> Some (Inr None)
      | Some c \<Rightarrow>
          (case deref h c of Inl f \<Rightarrow> Some (Inl f)
           | Inr e \<Rightarrow>
               if m_type e = t then Some (Inr (Some c))
               else case next_child h this c of Inl f \<Rightarrow> Some (Inl f)
                    | Inr nx \<Rightarrow> next_child_scan n h this nx t))"

definition first_child_of_type ::
    "nat \<Rightarrow> heap \<Rightarrow> addr \<Rightarrow> xml_dom_entity_type \<Rightarrow> (dom_failure + addr option) option" where
  "first_child_of_type n h this t =
     (case num_children h this of Inl f \<Rightarrow> Some (Inl f)
      | Inr k \<Rightarrow>
          if k > 0 then (case first_child h this of Inl f \<Rightarrow> Some (Inl f)
                         | Inr child \<Rightarrow> next_child_scan n h this child t)
          else Some (Inr None))"

definition next_child_of_type ::
    "nat \<Rightarrow> heap \<Rightarrow> addr \<Rightarrow> addr \<Rightarrow> xml_dom_entity_type \<Rightarrow> (dom_failure + addr option) option" where
  "next_child_of_type n h this child t =
     (case deref h child of Inl f \<Rightarrow> Some (Inl f)
      | Inr c \<Rightarrow>
          if m_parent c \<noteq> Some this then Some (Inl AssertionFailed)
          else case next_child h this child of Inl f \<Rightarrow> Some (Inl f)
               | Inr nx \<Rightarrow> next_child_scan n h this nx t)"

definition next_sibling :: "heap \<Rightarrow> addr \<Rightarrow> dom_failure + addr option" where
  "next_sibling h this =
     (case deref h this of Inl f \<Rightarrow> Inl f
      | Inr e \<Rightarrow> (case m_parent e of None \<Rightarrow> Inr None | Some p \<Rightarrow> next_child h p this))"

definition previous_sibling :: "heap \<Rightarrow> addr \<Rightarrow> dom_failure + addr option" where
  "previous_sibling h this =
     (case deref h this of Inl f \<Rightarrow> Inl f
      | Inr e \<Rightarrow> (case m_parent e of None \<Rightarrow> Inr None | Some p \<Rightarrow> previous_child h p this))"

definition next_sibling_of_type ::
    "nat \<Rightarrow> heap \<Rightarrow> addr \<Rightarrow> xml_dom_entity_type \<Rightarrow> (dom_failure + addr option) option" where
  "next_sibling_of_type n h this t =
     (case deref h this of Inl f \<Rightarrow> Some (Inl f)
      | Inr e \<Rightarrow> (case m_parent e of None \<Rightarrow> Some (Inr None)
                  | Some p \<Rightarrow> next_child_of_type n h p this t))"

definition first_child_tag :: "nat \<Rightarrow> heap \<Rightarrow> addr \<Rightarrow> (dom_failure + addr option) option" where
  "first_child_tag n h this = first_child_of_type n h this XML_DOM_TAG"

definition first_child_attribute :: "nat \<Rightarrow> heap \<Rightarrow> addr \<Rightarrow> (dom_failure + addr option) option" where
  "first_child_attribute n h this = first_child_of_type n h this XML_DOM_ATTRIBUTE"

definition next_sibling_attribute :: "nat \<Rightarrow> heap \<Rightarrow> addr \<Rightarrow> (dom_failure + addr option) option" where
  "next_sibling_attribute n h this = next_sibling_of_type n h this XML_DOM_ATTRIBUTE"

subsection \<open>The builder\<close>

text \<open>
  The user data of the builder's callbacks is the construction stack, a
  \<open>std::list<xml_dom_entity*>\<close>: \<open>back()\<close> is \<open>last\<close>, \<open>push_back\<close> appends,
  \<open>pop_back\<close> is \<open>butlast\<close>, \<open>front()\<close> is \<open>hd\<close>. A callback works on the heap and
  the stack.
\<close>

definition xml_dom_begin_tag_cb ::
    "heap \<times> addr list \<Rightarrow> string \<Rightarrow> dom_failure + (heap \<times> addr list)" where
  "xml_dom_begin_tag_cb hs name =
     (case hs of (h, stack) \<Rightarrow>
        let (h1, tag) = new_entity h in
        case set_type h1 tag XML_DOM_TAG of Inl f \<Rightarrow> Inl f | Inr h2 \<Rightarrow>
        case set_name h2 tag name of Inl f \<Rightarrow> Inl f | Inr h3 \<Rightarrow>
        if stack = [] then Inl EmptyStack
        else case add_child h3 (last stack) tag of Inl f \<Rightarrow> Inl f
             | Inr h4 \<Rightarrow> Inr (h4, stack @ [tag]))"

definition xml_dom_end_tag_cb ::
    "heap \<times> addr list \<Rightarrow> string \<Rightarrow> dom_failure + (heap \<times> addr list)" where
  "xml_dom_end_tag_cb hs name =
     (case hs of (h, stack) \<Rightarrow>
        if stack = [] then Inl EmptyStack else Inr (h, butlast stack))"

definition xml_dom_tag_text_cb ::
    "heap \<times> addr list \<Rightarrow> string \<Rightarrow> dom_failure + (heap \<times> addr list)" where
  "xml_dom_tag_text_cb hs text =
     (case hs of (h, stack) \<Rightarrow>
        if stack = [] then Inl EmptyStack
        else case set_value h (last stack) text of Inl f \<Rightarrow> Inl f
             | Inr h1 \<Rightarrow> Inr (h1, stack))"

definition xml_dom_comment_cb ::
    "heap \<times> addr list \<Rightarrow> string \<Rightarrow> dom_failure + (heap \<times> addr list)" where
  "xml_dom_comment_cb hs comment =
     (case hs of (h, stack) \<Rightarrow>
        let (h1, text) = new_entity h in
        case set_type h1 text XML_DOM_COMMENT of Inl f \<Rightarrow> Inl f | Inr h2 \<Rightarrow>
        case set_value h2 text comment of Inl f \<Rightarrow> Inl f | Inr h3 \<Rightarrow>
        if stack = [] then Inl EmptyStack
        else case add_child h3 (last stack) text of Inl f \<Rightarrow> Inl f
             | Inr h4 \<Rightarrow> Inr (h4, stack))"

definition xml_dom_attribute_cb ::
    "heap \<times> addr list \<Rightarrow> string \<Rightarrow> string \<Rightarrow> dom_failure + (heap \<times> addr list)" where
  "xml_dom_attribute_cb hs name v =
     (case hs of (h, stack) \<Rightarrow>
        let (h1, attrib) = new_entity h in
        case set_type h1 attrib XML_DOM_ATTRIBUTE of Inl f \<Rightarrow> Inl f | Inr h2 \<Rightarrow>
        case set_name h2 attrib name of Inl f \<Rightarrow> Inl f | Inr h3 \<Rightarrow>
        case set_value h3 attrib v of Inl f \<Rightarrow> Inl f | Inr h4 \<Rightarrow>
        if stack = [] then Inl EmptyStack
        else case add_child h4 (last stack) attrib of Inl f \<Rightarrow> Inl f
             | Inr h5 \<Rightarrow> Inr (h5, stack))"

text \<open>
  The record \<open>callbacks\<close> of \<open>xml_dom_parse\<close> binds each event to its callback. The
  callbacks do not touch the parser state (and \<open>name=name\<close> in the end-tag callback changes
  nothing), so running them over the recorded events, in order, gives the heap and stack
  that the interleaved calls give.
\<close>

fun xml_dom_callback :: "heap \<times> addr list \<Rightarrow> xml_event \<Rightarrow> dom_failure + (heap \<times> addr list)" where
  "xml_dom_callback hs (BeginTag name) = xml_dom_begin_tag_cb hs name"
| "xml_dom_callback hs (EndTag name) = xml_dom_end_tag_cb hs name"
| "xml_dom_callback hs (TagText text) = xml_dom_tag_text_cb hs text"
| "xml_dom_callback hs (Comment comment) = xml_dom_comment_cb hs comment"
| "xml_dom_callback hs (Attribute name v) = xml_dom_attribute_cb hs name v"

fun run_callbacks :: "xml_event list \<Rightarrow> heap \<times> addr list \<Rightarrow> dom_failure + (heap \<times> addr list)" where
  "run_callbacks [] hs = Inr hs"
| "run_callbacks (ev # evs) hs =
     (case xml_dom_callback hs ev of Inl f \<Rightarrow> Inl f | Inr hs' \<Rightarrow> run_callbacks evs hs')"

text \<open>
  \<open>xml_dom_build\<close> is \<open>xml_dom_parse\<close> up to its last statement: it returns the heap and
  the stack as the parse leaves them. \<open>xml_dom_parse\<close> returns the front of that stack.
\<close>

definition xml_dom_build ::
    "nat \<Rightarrow> heap \<Rightarrow> string \<Rightarrow> (dom_failure + (heap \<times> addr list)) option" where
  "xml_dom_build n h b =
     (let (h1, doc) = new_entity h in
      case set_type h1 doc XML_DOM_DOCUMENT of Inl f \<Rightarrow> Some (Inl f) | Inr h2 \<Rightarrow>
      case xml_read_document n (xml_initial_state b) of
        None \<Rightarrow> None
      | Some (Inl e) \<Rightarrow> Some (Inl (Thrown e))
      | Some (Inr st) \<Rightarrow>
          (case run_callbacks (events st) (h2, [doc]) of Inl f \<Rightarrow> Some (Inl f)
           | Inr hs \<Rightarrow> Some (Inr hs)))"

definition xml_dom_parse :: "nat \<Rightarrow> heap \<Rightarrow> string \<Rightarrow> (dom_failure + (heap \<times> addr)) option" where
  "xml_dom_parse n h b =
     (case xml_dom_build n h b of
        None \<Rightarrow> None
      | Some (Inl f) \<Rightarrow> Some (Inl f)
      | Some (Inr (h1, stack)) \<Rightarrow>
          if stack = [] then Some (Inl EmptyStack) else Some (Inr (h1, hd stack)))"

subsection \<open>Serialization\<close>

text \<open>
  Modelled from the spec: the serializer. The program has none: xml\_dom.h declares
  \<open>operator<<\<close> for entities a friend of the class and holds a definition of it only
  inside a comment block. The spec (section 4.7) says: a Tag is written as
  \<open><name attr="val"...>\<close>, its in-order children (text, comments, tags) and
  \<open></name>\<close>, and self-closes as \<open><name attr=.../>\<close> when it has no child tag and an
  empty text value; a Comment is written as \<open><!-- text -->\<close>; a Document as the fixed
  header line \<open><?xml version="1.0"?>\<close>, then its children; serializing an Attribute
  entity is a usage error and is signalled.

  \<open>serialize_attributes h cs\<close> writes the attributes among the children \<open>cs\<close> of a tag,
  in order, each as a space and \<open>name="value"\<close>.
\<close>

fun serialize_attributes :: "heap \<Rightarrow> addr list \<Rightarrow> dom_failure + string" where
  "serialize_attributes h [] = Inr []"
| "serialize_attributes h (c # cs) =
     (case deref h c of Inl f \<Rightarrow> Inl f | Inr e \<Rightarrow>
      case serialize_attributes h cs of Inl f \<Rightarrow> Inl f | Inr rest \<Rightarrow>
      if m_type e = XML_DOM_ATTRIBUTE
      then Inr ('' '' @ m_name e @ [CHR ''='', CHR 0x22] @ m_value e @ [CHR 0x22] @ rest)
      else Inr rest)"

text \<open>
  Modelled from the spec: the serializer's test for a child tag among the children \<open>cs\<close>
  (section 4.7: a tag self-closes when it has no child tag and an empty text value).
\<close>

fun has_child_tag :: "heap \<Rightarrow> addr list \<Rightarrow> bool" where
  "has_child_tag h [] = False"
| "has_child_tag h (c # cs) =
     ((c < length h \<and> m_type (h ! c) = XML_DOM_TAG) \<or> has_child_tag h cs)"

text \<open>
  Modelled from the spec: the serializer (section 4.7, quoted above). \<open>serialize\<close>
  returns the text of an entity; \<open>serialize_children\<close> that of the children that are not
  attributes, in order. The text value of a tag is written before its other children, the
  header line of a Document ends with a newline, and a self-closed tag is written as the
  self-closed form alone. An entity of no kind of the spec (\<open>XML_DOM_INVALID\<close>) is a
  usage error like an Attribute. Fuel bounds the depth of the tree.
\<close>

fun serialize :: "nat \<Rightarrow> heap \<Rightarrow> addr \<Rightarrow> (dom_failure + string) option"
and serialize_children :: "nat \<Rightarrow> heap \<Rightarrow> addr list \<Rightarrow> (dom_failure + string) option" where
  "serialize 0 h a = None"
| "serialize (Suc n) h a =
     (case deref h a of Inl f \<Rightarrow> Some (Inl f) | Inr e \<Rightarrow>
      case m_type e of
        XML_DOM_INVALID \<Rightarrow> Some (Inl UsageError)
      | XML_DOM_ATTRIBUTE \<Rightarrow> Some (Inl UsageError)
      | XML_DOM_COMMENT \<Rightarrow> Some (Inr (''<!-- '' @ m_value e @ '' -->''))
      | XML_DOM_DOCUMENT \<Rightarrow>
          (case serialize_children n h (m_child e) of
             None \<Rightarrow> None
           | Some (Inl f) \<Rightarrow> Some (Inl f)
           | Some (Inr body) \<Rightarrow>
               Some (Inr (''<?xml version='' @ [CHR 0x22] @ ''1.0'' @ [CHR 0x22] @ ''?>''
                          @ [CHR 0x0A] @ body)))
      | XML_DOM_TAG \<Rightarrow>
          (case serialize_attributes h (m_child e) of Inl f \<Rightarrow> Some (Inl f) | Inr attrs \<Rightarrow>
           if \<not> has_child_tag h (m_child e) \<and> m_value e = []
           then Some (Inr (''<'' @ m_name e @ attrs @ ''/>''))
           else case serialize_children n h (m_child e) of
                  None \<Rightarrow> None
                | Some (Inl f) \<Rightarrow> Some (Inl f)
                | Some (Inr body) \<Rightarrow>
                    Some (Inr (''<'' @ m_name e @ attrs @ ''>'' @ m_value e @ body
                               @ ''</'' @ m_name e @ ''>''))))"
| "serialize_children 0 h cs = None"
| "serialize_children (Suc n) h [] = Some (Inr [])"
| "serialize_children (Suc n) h (c # cs) =
     (case deref h c of Inl f \<Rightarrow> Some (Inl f) | Inr e \<Rightarrow>
      case (if m_type e = XML_DOM_ATTRIBUTE then Some (Inr []) else serialize n h c) of
        None \<Rightarrow> None
      | Some (Inl f) \<Rightarrow> Some (Inl f)
      | Some (Inr first) \<Rightarrow>
          (case serialize_children n h cs of
             None \<Rightarrow> None
           | Some (Inl f) \<Rightarrow> Some (Inl f)
           | Some (Inr rest) \<Rightarrow> Some (Inr (first @ rest))))"

subsection \<open>Comparing trees\<close>

text \<open>
  The tree below an entity, as the types, names, values and child sequences of the entities
  reached through \<open>m_child\<close>: what two trees must agree on to be equal in type, name, value
  and child structure.
\<close>

datatype dom_tree = Node xml_dom_entity_type string string "dom_tree list"

fun tree_of :: "nat \<Rightarrow> heap \<Rightarrow> addr \<Rightarrow> dom_tree option" where
  "tree_of 0 h a = None"
| "tree_of (Suc n) h a =
     (if a < length h then
        (case those (map (tree_of n h) (m_child (h ! a))) of
           None \<Rightarrow> None
         | Some ts \<Rightarrow> Some (Node (m_type (h ! a)) (m_name (h ! a)) (m_value (h ! a)) ts))
      else None)"

subsection \<open>The index invariant\<close>


text \<open>
  The same seen from the parent: every member of a child sequence is an entity of the heap
  whose parent is the owner of the sequence and whose index is its position there.
\<close>

definition owner_invariant :: "heap \<Rightarrow> bool" where
  "owner_invariant h =
     (\<forall>p < length h. \<forall>i < length (m_child (h ! p)).
        m_child (h ! p) ! i < length h
        \<and> m_parent (h ! (m_child (h ! p) ! i)) = Some p
        \<and> m_index (h ! (m_child (h ! p) ! i)) = int i)"

subsection \<open>Nesting of tag events\<close>

text \<open>
  \<open>tag_depth d evs\<close> runs through the events with \<open>d\<close> tags open at the start: BeginTag
  opens a tag, EndTag closes one. The result is \<open>None\<close> when an EndTag arrives with no tag
  open, and the number of tags left open otherwise. \<open>tag_depth 0 evs \<noteq> None\<close> says that
  no prefix of \<open>evs\<close> holds more EndTag than BeginTag events.

  \<open>emits_nested k st st'\<close>: the state \<open>st'\<close> has the events of \<open>st\<close> and further ones,
  and these close at most \<open>k\<close> of the tags that were open before them.

  \<open>stack_valid h stack\<close>: the construction stack is not empty and its pointers are to
  entities of the heap that pass the assertion \<open>m_type != XML_DOM_INVALID\<close>.
\<close>

fun tag_depth :: "nat \<Rightarrow> xml_event list \<Rightarrow> nat option" where
  "tag_depth d [] = Some d"
| "tag_depth d (BeginTag name # evs) = tag_depth (Suc d) evs"
| "tag_depth d (EndTag name # evs) = (case d of 0 \<Rightarrow> None | Suc d' \<Rightarrow> tag_depth d' evs)"
| "tag_depth d (TagText t # evs) = tag_depth d evs"
| "tag_depth d (Comment c # evs) = tag_depth d evs"
| "tag_depth d (Attribute name v # evs) = tag_depth d evs"

definition emits_nested :: "nat \<Rightarrow> xml_state \<Rightarrow> xml_state \<Rightarrow> bool" where
  "emits_nested k st st' =
     (\<exists>evs. events st' = events st @ evs
            \<and> (\<forall>d. \<exists>d'. tag_depth (d + k) evs = Some d' \<and> d \<le> d'))"

definition stack_valid :: "heap \<Rightarrow> addr list \<Rightarrow> bool" where
  "stack_valid h stack =
     (stack \<noteq> [] \<and> (\<forall>a\<in>set stack. a < length h \<and> m_type (h ! a) \<noteq> XML_DOM_INVALID))"

subsection \<open>Example heaps\<close>

text \<open>
  A Document entity as \<open>xml_dom_parse\<close> creates it, and the heaps that the mutation
  methods build from it in the examples below.
\<close>

definition document_root :: xml_dom_entity where
  "document_root =
     \<lparr>m_type = XML_DOM_DOCUMENT, m_parent = None, m_child = [], m_index = - 1,
      m_name = [], m_value = []\<rparr>"

definition one_child :: heap where
  "one_child =
     [document_root\<lparr>m_child := [1]\<rparr>,
      \<lparr>m_type = XML_DOM_TAG, m_parent = Some 0, m_child = [], m_index = 0,
        m_name = ''a'', m_value = []\<rparr>]"

definition two_children :: heap where
  "two_children =
     [document_root\<lparr>m_child := [1, 2]\<rparr>,
      \<lparr>m_type = XML_DOM_TAG, m_parent = Some 0, m_child = [], m_index = 0,
        m_name = ''a'', m_value = []\<rparr>,
      \<lparr>m_type = XML_DOM_TAG, m_parent = Some 0, m_child = [], m_index = 1,
        m_name = ''b'', m_value = []\<rparr>]"

definition tag_with_attribute :: heap where
  "tag_with_attribute =
     [document_root\<lparr>m_child := [1]\<rparr>,
      \<lparr>m_type = XML_DOM_TAG, m_parent = Some 0, m_child = [2], m_index = 0,
        m_name = ''a'', m_value = []\<rparr>,
      \<lparr>m_type = XML_DOM_ATTRIBUTE, m_parent = Some 1, m_child = [], m_index = 0,
        m_name = ''x'', m_value = ''1''\<rparr>]"

definition tag_with_attribute_text :: string where
  \<open>tag_with_attribute_text = ''<?xml version="1.0"?>'' @ [CHR 0x0A] @ ''<a x="1"/>''\<close>

definition tag_with_attribute_reparsed :: heap where
  "tag_with_attribute_reparsed =
     tag_with_attribute @
     [document_root\<lparr>m_child := [4]\<rparr>,
      \<lparr>m_type = XML_DOM_TAG, m_parent = Some 3, m_child = [5], m_index = 0,
        m_name = ''a'', m_value = []\<rparr>,
      \<lparr>m_type = XML_DOM_ATTRIBUTE, m_parent = Some 4, m_child = [], m_index = 0,
        m_name = ''x'', m_value = [CHR ''1'', CHR 0x00]\<rparr>]"

section \<open>Properties of the parser\<close>

subsection \<open>Evaluation and basic facts\<close>

lemmas xml_eval =
  xml_initial_state_def xml_read_document_def xml_eof_def xml_peek_def xml_advance_def
  xml_match_def xml_is_space_def xml_is_alpha_def xml_is_digit_def xml_is_valid_name_char_def
  xml_read_name_def xml_parse_string_def xml_read_text_def xml_read_closing_tag_def
  xml_read_comment_def xml_read_header_def lookahead2_def emit_def Let_def

lemma fuel2: "n + 2 = Suc (Suc n)"
  by simp

lemma fuel3: "n + 3 = Suc (Suc (Suc n))"
  by simp

lemma fuel5: "n + 5 = Suc (Suc (Suc (Suc (Suc n))))"
  by simp

lemma xml_advance_fields [simp]:
  "pos (xml_advance st) = pos st + 1"
  "buffer (xml_advance st) = buffer st"
  "events (xml_advance st) = events st"
  by (simp_all add: xml_advance_def)

lemma emit_fields [simp]:
  "pos (emit ev st) = pos st"
  "buffer (emit ev st) = buffer st"
  "events (emit ev st) = events st @ [ev]"
  "line_number (emit ev st) = line_number st"
  "column_number (emit ev st) = column_number st"
  by (simp_all add: emit_def)

text \<open>Inside the buffer \<open>xml_eat_space\<close> cannot throw, and it calls no callback.\<close>

lemma xml_eat_space_total:
  "pos st \<le> length (buffer st) \<Longrightarrow>
   \<exists>st'. xml_eat_space st = Inr st' \<and> events st' = events st \<and> buffer st' = buffer st
         \<and> pos st \<le> pos st' \<and> pos st' \<le> length (buffer st')"
proof (induction st rule: xml_eat_space.induct)
  case (1 st)
  show ?case
  proof (cases "xml_eof st")
    case True
    then show ?thesis using "1.prems" by (subst xml_eat_space.simps) simp
  next
    case False
    then have lt: "pos st < length (buffer st)" using "1.prems" by (simp add: xml_eof_def)
    then have pk: "xml_peek st 0 = Inr (buffer st ! pos st)" by (simp add: xml_peek_def)
    show ?thesis
    proof (cases "xml_is_space (buffer st ! pos st)")
      case True
      have "pos (xml_advance st) \<le> length (buffer (xml_advance st))"
        using lt by simp
      from "1.IH"[OF False pk True this] obtain st' where
        "xml_eat_space (xml_advance st) = Inr st'" "events st' = events (xml_advance st)"
        "buffer st' = buffer (xml_advance st)" "pos (xml_advance st) \<le> pos st'"
        "pos st' \<le> length (buffer st')" by blast
      then show ?thesis using False pk True
        by (subst xml_eat_space.simps) auto
    next
      case F2: False
      then show ?thesis using False pk "1.prems" by (subst xml_eat_space.simps) simp
    qed
  qed
qed

lemma xml_eat_space_keeps:
  "xml_eat_space st = Inr st' \<Longrightarrow>
   events st' = events st \<and> buffer st' = buffer st \<and> pos st \<le> pos st'"
proof (induction st rule: xml_eat_space.induct)
  case (1 st)
  show ?case
  proof (cases "xml_eof st")
    case True
    then show ?thesis using "1.prems" by (subst (asm) xml_eat_space.simps) auto
  next
    case False
    show ?thesis
    proof (cases "xml_peek st 0")
      case (Inl e)
      then show ?thesis using False "1.prems" by (subst (asm) xml_eat_space.simps) simp
    next
      case (Inr c)
      show ?thesis
      proof (cases "xml_is_space c")
        case True
        then have "xml_eat_space (xml_advance st) = Inr st'"
          using False Inr "1.prems" by (subst (asm) xml_eat_space.simps) simp
        from "1.IH"[OF False Inr True this] show ?thesis
          by auto
      next
        case F2: False
        then show ?thesis using False Inr "1.prems" by (subst (asm) xml_eat_space.simps) auto
      qed
    qed
  qed
qed

subsection \<open>Termination\<close>

lemma document_loop_stuck:
  "buffer st = ''<1'' \<Longrightarrow> pos st = 0 \<Longrightarrow> xml_read_document_loop n first st = None"
  by (induction n) (simp_all add: xml_eof_def xml_peek_def xml_is_alpha_def xml_is_space_def)

lemma header_loop_stuck:
  "buffer st = ''<?xml 1'' \<Longrightarrow> pos st = 6 \<Longrightarrow> xml_read_header_loop n st = None"
  by (induction n)
     (simp_all add: xml_eof_def xml_peek_def xml_is_alpha_def xml_is_space_def lookahead2_def)

lemma header_loop_stuck_after_space:
  "buffer st = ''<?xml 1'' \<Longrightarrow> pos st = 5 \<Longrightarrow> xml_read_header_loop n st = None"
proof (cases n)
  case 0
  then show ?thesis by simp
next
  case (Suc m)
  assume b: "buffer st = ''<?xml 1''" and p: "pos st = 5"
  have "xml_eat_space st = xml_eat_space (xml_advance st)"
    using b p by (subst xml_eat_space.simps) (simp add: xml_eof_def xml_peek_def xml_is_space_def)
  also have "\<dots> = Inr (xml_advance st)"
    using b p by (subst xml_eat_space.simps) (simp add: xml_eof_def xml_peek_def xml_is_space_def)
  finally have es: "xml_eat_space st = Inr (xml_advance st)" .
  have "xml_read_header_loop m (xml_advance st) = None"
    using b p by (intro header_loop_stuck) simp_all
  then show ?thesis
    using Suc b p es
    by (simp add: xml_eof_def xml_peek_def xml_is_alpha_def lookahead2_def)
qed

lemma attribute_loop_stuck:
  "buffer st = ''<a 1'' \<Longrightarrow> pos st = 3 \<Longrightarrow> xml_read_tag_attributes n tag_name st = None"
  by (induction n)
     (simp_all add: xml_eof_def xml_peek_def xml_is_alpha_def xml_is_space_def lookahead2_def)

lemma attribute_loop_stuck_after_space:
  "buffer st = ''<a 1'' \<Longrightarrow> pos st = 2 \<Longrightarrow> xml_read_tag_attributes n tag_name st = None"
proof (cases n)
  case 0
  then show ?thesis by simp
next
  case (Suc m)
  assume b: "buffer st = ''<a 1''" and p: "pos st = 2"
  have "xml_eat_space st = xml_eat_space (xml_advance st)"
    using b p by (subst xml_eat_space.simps) (simp add: xml_eof_def xml_peek_def xml_is_space_def)
  also have "\<dots> = Inr (xml_advance st)"
    using b p by (subst xml_eat_space.simps) (simp add: xml_eof_def xml_peek_def xml_is_space_def)
  finally have es: "xml_eat_space st = Inr (xml_advance st)" .
  have "xml_read_tag_attributes m tag_name (xml_advance st) = None"
    using b p by (intro attribute_loop_stuck) simp_all
  then show ?thesis
    using Suc b p es
    by (simp add: xml_eof_def xml_peek_def xml_is_alpha_def lookahead2_def)
qed

text \<open>
  C1. The claim: every parse ends within a number of steps bounded by the length of the
  input, in particular on a \<open><\<close> followed by a character that is not \<open>?\<close>, \<open>!\<close> or a
  letter, and on a header whose body reaches a character that is neither a letter nor
  \<open>?>\<close>. On the buffers \<open><1\<close>, \<open><?xml 1\<close> and \<open><a 1\<close> the parser neither returns
  nor throws, whatever the fuel: the document loop, the header loop and the attribute loop
  run an iteration that consumes nothing and changes nothing.
\<close>

theorem xml_read_document_never_returns:
  "xml_read_document n (xml_initial_state ''<1'') = None
   \<and> xml_read_document n (xml_initial_state ''<?xml 1'') = None
   \<and> xml_read_document n (xml_initial_state ''<a 1'') = None"
proof (intro conjI)
  have "xml_eat_space (xml_initial_state ''<1'') = Inr (xml_initial_state ''<1'')"
    by (simp add: xml_eval)
  then show "xml_read_document n (xml_initial_state ''<1'') = None"
    by (simp add: xml_read_document_def document_loop_stuck xml_initial_state_def)
next
  let ?st = "xml_initial_state ''<?xml 1''"
  have es: "xml_eat_space ?st = Inr ?st"
    by (simp add: xml_eval)
  have "xml_read_document_loop n True ?st = None"
  proof (cases n)
    case 0
    then show ?thesis by simp
  next
    case (Suc m)
    let ?st5 = "xml_advance (xml_advance (xml_advance (xml_advance (xml_advance ?st))))"
    have "xml_read_header m ?st = xml_read_header_loop m ?st5"
      by (simp add: xml_read_header_def xml_match_def xml_peek_def xml_initial_state_def)
    moreover have "xml_read_header_loop m ?st5 = None"
      by (intro header_loop_stuck_after_space) (simp_all add: xml_initial_state_def)
    ultimately have "xml_read_header m ?st = None"
      by simp
    then show ?thesis
      using Suc by (simp add: xml_initial_state_def xml_eof_def xml_peek_def)
  qed
  then show "xml_read_document n ?st = None"
    using es by (simp add: xml_read_document_def)
next
  show "xml_read_document n (xml_initial_state ''<a 1'') = None"
  proof -
    let ?st = "xml_initial_state ''<a 1''"
    have es: "xml_eat_space ?st = Inr ?st"
      by (simp add: xml_eval)
    have "xml_read_tag m ?st = None" for m
    proof (cases m)
      case 0
      then show ?thesis by simp
    next
      case (Suc k)
      let ?st3 = "emit (BeginTag ''a'') (xml_advance (xml_advance ?st))"
      have rn: "xml_read_name (xml_advance ?st) = Inr (''a'', xml_advance (xml_advance ?st))"
        by (simp add: xml_eval)
      have "xml_read_tag_attributes k ''a'' ?st3 = None"
        by (intro attribute_loop_stuck_after_space) (simp_all add: xml_initial_state_def)
      then show ?thesis
        using Suc es rn by (simp add: xml_match_def xml_peek_def xml_initial_state_def)
    qed
    then have "xml_read_document_loop n True ?st = None"
      by (cases n) (simp_all add: xml_initial_state_def xml_eof_def xml_peek_def xml_is_alpha_def)
    then show ?thesis
      using es by (simp add: xml_read_document_def)
  qed
qed

subsection \<open>The header\<close>

text \<open>
  C3. The claim: a header is accepted only as the first top-level construct, and a parse
  with a header after the first construct fails. A header in the first position is parsed
  and accepted (first part). The second buffer has the same header after the tag \<open><a/>\<close>;
  the parse returns normally, having emitted the two events of the tag.
\<close>

theorem header_after_first_construct_accepted:
  \<open>xml_read_document (n + 5) (xml_initial_state ''<?xml version="1.0"?><a/>'') =
     Some (Inr \<lparr>buffer = ''<?xml version="1.0"?><a/>'', pos = 25, line_number = 0,
                 column_number = 25, events = [BeginTag ''a'', EndTag ''a'']\<rparr>)
   \<and> xml_read_document (n + 5) (xml_initial_state ''<a/><?xml version="1.0"?>'') =
     Some (Inr \<lparr>buffer = ''<a/><?xml version="1.0"?>'', pos = 25, line_number = 0,
                 column_number = 25, events = [BeginTag ''a'', EndTag ''a'']\<rparr>)\<close>
  unfolding fuel5 by (simp add: xml_eval)

subsection \<open>Attribute values\<close>

text \<open>
  C4. The claim: parsing \<open><a x="1" y="2">hi</a>\<close> emits BeginTag a, Attribute x 1,
  Attribute y 2, Text hi, EndTag a, each attribute value being exactly the characters
  between the quotes. The parse emits these five events in this order, but each attribute
  value ends with the character NUL that \<open>xml_parse_string\<close> appends.
\<close>

theorem attribute_values_end_with_nul:
  \<open>xml_read_document (n + 5) (xml_initial_state ''<a x="1" y="2">hi</a>'') =
     Some (Inr \<lparr>buffer = ''<a x="1" y="2">hi</a>'', pos = 21, line_number = 0,
                 column_number = 21,
                 events = [BeginTag ''a'', Attribute ''x'' [CHR ''1'', CHR 0x00],
                           Attribute ''y'' [CHR ''2'', CHR 0x00], TagText ''hi'',
                           EndTag ''a'']\<rparr>)\<close>
  unfolding fuel5 by (simp add: xml_eval)

subsection \<open>Comments\<close>

text \<open>
  C5. The claim: a hyphen of a comment body that is not part of the terminator is kept, so
  that the body \<open>a-b\<close> gives the comment text \<open>a-b\<close>. The comment reader returns \<open>ab\<close>
  for this body, and the document driver emits that string.
\<close>

theorem comment_drops_lone_hyphen:
  \<open>xml_read_comment (xml_initial_state ''<!--a-b-->'') =
     Inr (''ab'', \<lparr>buffer = ''<!--a-b-->'', pos = 10, line_number = 0, column_number = 10,
                    events = []\<rparr>)
   \<and> xml_read_document (n + 2) (xml_initial_state ''<!--a-b-->'') =
     Some (Inr \<lparr>buffer = ''<!--a-b-->'', pos = 10, line_number = 0, column_number = 10,
                 events = [Comment ''ab'']\<rparr>)\<close>
  unfolding fuel2 by (simp add: xml_eval)

subsection \<open>Reading names\<close>

lemma name_char_not_newline: "xml_is_valid_name_char c \<Longrightarrow> c \<noteq> CHR 0x0A"
  by (auto simp: xml_is_valid_name_char_def xml_is_alpha_def xml_is_digit_def)

lemma alpha_not_space: "xml_is_alpha c \<Longrightarrow> \<not> xml_is_space c"
  by (auto simp: xml_is_alpha_def xml_is_space_def)

lemma xml_read_name_loop_reads:
  assumes "\<forall>x\<in>set nm. xml_is_valid_name_char x"
    and "buffer st = pre @ nm @ rest" and "pos st = length pre"
    and "rest = [] \<or> \<not> xml_is_valid_name_char (hd rest)"
  shows "xml_read_name_loop st acc =
           Inr (acc @ nm, st\<lparr>pos := pos st + length nm,
                              column_number := column_number st + int (length nm)\<rparr>)"
  using assms
proof (induction nm arbitrary: st acc pre)
  case Nil
  show ?case
  proof (cases rest)
    case Nil
    then show ?thesis using Nil.prems
      by (subst xml_read_name_loop.simps) (simp add: xml_eof_def)
  next
    case (Cons r rs)
    then show ?thesis using Nil.prems
      by (subst xml_read_name_loop.simps) (simp add: xml_eof_def xml_peek_def)
  qed
next
  case (Cons x xs)
  have x: "xml_is_valid_name_char x" and xs: "\<forall>y\<in>set xs. xml_is_valid_name_char y"
    using Cons.prems(1) by simp_all
  have lt: "pos st < length (buffer st)" using Cons.prems(2,3) by simp
  have at: "buffer st ! pos st = x" using Cons.prems(2,3) by (simp add: nth_append)
  have adv: "xml_advance st = st\<lparr>pos := pos st + 1, column_number := column_number st + 1\<rparr>"
    using at name_char_not_newline [OF x] by (simp add: xml_advance_def)
  have b': "buffer (xml_advance st) = (pre @ [x]) @ xs @ rest"
    using Cons.prems(2) by simp
  have p': "pos (xml_advance st) = length (pre @ [x])"
    using Cons.prems(3) by simp
  have "xml_read_name_loop st acc = xml_read_name_loop (xml_advance st) (acc @ [x])"
    using lt at x by (subst xml_read_name_loop.simps) (simp add: xml_eof_def xml_peek_def)
  also have "\<dots> = Inr ((acc @ [x]) @ xs,
       (xml_advance st)\<lparr>pos := pos (xml_advance st) + length xs,
          column_number := column_number (xml_advance st) + int (length xs)\<rparr>)"
    by (rule Cons.IH [OF xs b' p' Cons.prems(4)])
  finally show ?case by (simp add: adv)
qed


lemma xml_eat_space_stays:
  "pos st < length (buffer st) \<Longrightarrow> \<not> xml_is_space (buffer st ! pos st) \<Longrightarrow>
   xml_eat_space st = Inr st"
  by (subst xml_eat_space.simps) (simp add: xml_eof_def xml_peek_def)

lemma xml_eat_space_at_end: "pos st = length (buffer st) \<Longrightarrow> xml_eat_space st = Inr st"
  by (subst xml_eat_space.simps) (simp add: xml_eof_def)

lemma xml_read_name_reads:
  assumes nm: "xml_name nm" and b: "buffer st = pre @ nm @ rest" and p: "pos st = length pre"
    and r: "rest = [] \<or> \<not> xml_is_valid_name_char (hd rest)"
  shows "xml_read_name st =
           Inr (nm, st\<lparr>pos := pos st + length nm,
                        column_number := column_number st + int (length nm)\<rparr>)"
proof -
  from nm obtain c cs where c: "nm = c # cs" "xml_is_alpha c"
    by (cases nm) (auto simp: xml_name_def)
  have lt: "pos st < length (buffer st)" using b p c by simp
  have at: "buffer st ! pos st = c" using b p c by (simp add: nth_append)
  have es: "xml_eat_space st = Inr st"
    using lt at c alpha_not_space by (intro xml_eat_space_stays) simp_all
  have pk: "xml_peek st 0 = Inr c" using lt at by (simp add: xml_peek_def)
  have "\<forall>x\<in>set nm. xml_is_valid_name_char x" using nm by (simp add: xml_name_def)
  from xml_read_name_loop_reads [OF this b p r, of "[]"] es pk c(2)
  show ?thesis by (simp add: xml_read_name_def)
qed

lemma self_closing_any_name:
  assumes nm: "xml_name nm"
  shows "xml_read_document (n + 3) (xml_initial_state (''<'' @ nm @ ''/>'')) =
     Some (Inr \<lparr>buffer = ''<'' @ nm @ ''/>'', pos = length nm + 3, line_number = 0,
                 column_number = int (length nm) + 3,
                 events = [BeginTag nm, EndTag nm]\<rparr>)"
proof -
  let ?b = "''<'' @ nm @ ''/>''"
  let ?st0 = "xml_initial_state ?b"
  let ?st1 = "xml_advance ?st0"
  from nm obtain c cs where c: "nm = c # cs" "xml_is_alpha c"
    by (cases nm) (auto simp: xml_name_def)
  have sp: "\<not> xml_is_space (CHR ''<'')" "\<not> xml_is_space (CHR ''/'')"
    by (simp_all add: xml_is_space_def)
  have es0: "xml_eat_space ?st0 = Inr ?st0"
    by (intro xml_eat_space_stays) (simp_all add: xml_initial_state_def sp)
  have m0: "xml_match ?st0 (CHR ''<'') = Inr ?st1"
    by (simp add: xml_match_def xml_peek_def xml_initial_state_def)
  let ?st2 = "?st1\<lparr>pos := pos ?st1 + length nm,
                     column_number := column_number ?st1 + int (length nm)\<rparr>"
  have rn: "xml_read_name ?st1 = Inr (nm, ?st2)"
    by (rule xml_read_name_reads [OF nm, where pre = "''<''" and rest = "''/>''"])
       (simp_all add: xml_initial_state_def xml_is_valid_name_char_def xml_is_alpha_def
          xml_is_digit_def)
  let ?st2e = "emit (BeginTag nm) ?st2"
  have p2: "pos ?st2e = Suc (length nm)" "buffer ?st2e = ?b"
    by (simp_all add: xml_initial_state_def)
  have es2: "xml_eat_space ?st2e = Inr ?st2e"
    by (intro xml_eat_space_stays) (simp_all add: xml_initial_state_def nth_append sp)
  let ?st3 = "emit (EndTag nm) (xml_advance (xml_advance ?st2e))"
  have es3: "xml_eat_space ?st3 = Inr ?st3"
    by (intro xml_eat_space_at_end) (simp add: xml_initial_state_def)
  have at: "xml_read_tag_attributes (Suc n) nm ?st2e = Some (Inr (True, ?st3))"
    using es2 es3
    by (simp add: xml_initial_state_def xml_eof_def xml_peek_def nth_append xml_is_alpha_def
          lookahead2_def xml_match_def)
  have rt: "xml_read_tag (Suc (Suc n)) ?st0 = Some (Inr ?st3)"
    using es0 m0 rn at by simp
  have pk: "xml_peek ?st0 0 = Inr (CHR ''<'')" "xml_peek ?st0 1 = Inr c"
    using c by (simp_all add: xml_peek_def xml_initial_state_def)
  have c': "c \<noteq> CHR ''?''" "c \<noteq> CHR ''!''"
    using c(2) by (auto simp: xml_is_alpha_def)
  have e3: "xml_eof ?st3" by (simp add: xml_eof_def xml_initial_state_def)
  have ne0: "\<not> xml_eof ?st0" by (simp add: xml_eof_def xml_initial_state_def)
  have "xml_read_document_loop (Suc (Suc (Suc n))) True ?st0 = Some (Inr ?st3)"
    using ne0 pk c' c(2) rt es3 e3 by simp
  then have "xml_read_document (n + 3) ?st0 = Some (Inr ?st3)"
    using es0 by (simp add: xml_read_document_def fuel3)
  moreover have "?st3 = \<lparr>buffer = ?b, pos = length nm + 3, line_number = 0,
                 column_number = int (length nm) + 3,
                 events = [BeginTag nm, EndTag nm]\<rparr>"
    using c by (simp add: xml_initial_state_def xml_advance_def emit_def nth_append)
  ultimately show ?thesis by simp
qed


lemma closing_mismatch_any_names:
  assumes a: "xml_name a" and b: "xml_name b" and ab: "b \<noteq> a"
  shows "xml_read_document (n + 3) (xml_initial_state (''<'' @ a @ ''></'' @ b @ ''>'')) =
           Some (Inl (ClosingNameMismatch b a 0))"
proof -
  let ?b = "''<'' @ a @ ''></'' @ b @ ''>''"
  let ?st0 = "xml_initial_state ?b"
  let ?st1 = "xml_advance ?st0"
  from a obtain c cs where c: "a = c # cs" "xml_is_alpha c"
    by (cases a) (auto simp: xml_name_def)
  have sp: "\<not> xml_is_space (CHR ''<'')" "\<not> xml_is_space (CHR ''>'')"
    by (simp_all add: xml_is_space_def)
  have nn: "\<not> xml_is_valid_name_char (CHR ''>'')"
    by (simp add: xml_is_valid_name_char_def xml_is_alpha_def xml_is_digit_def)
  have es0: "xml_eat_space ?st0 = Inr ?st0"
    by (intro xml_eat_space_stays) (simp_all add: xml_initial_state_def sp)
  have m0: "xml_match ?st0 (CHR ''<'') = Inr ?st1"
    by (simp add: xml_match_def xml_peek_def xml_initial_state_def)
  let ?st2 = "?st1\<lparr>pos := pos ?st1 + length a,
                     column_number := column_number ?st1 + int (length a)\<rparr>"
  have rn: "xml_read_name ?st1 = Inr (a, ?st2)"
    by (rule xml_read_name_reads [OF a, where pre = "''<''" and rest = "''></'' @ b @ ''>''"])
       (simp_all add: xml_initial_state_def nn)
  let ?st2e = "emit (BeginTag a) ?st2"
  have es2: "xml_eat_space ?st2e = Inr ?st2e"
    by (intro xml_eat_space_stays) (simp_all add: xml_initial_state_def nth_append sp)
  let ?st3 = "xml_advance ?st2e"
  have at: "xml_read_tag_attributes (Suc n) a ?st2e = Some (Inr (False, ?st3))"
    using es2
    by (simp add: xml_initial_state_def xml_eof_def xml_peek_def nth_append xml_is_alpha_def
          xml_match_def)
  have es3: "xml_eat_space ?st3 = Inr ?st3"
    by (intro xml_eat_space_stays) (simp_all add: xml_initial_state_def nth_append sp)
  let ?st5 = "xml_advance (xml_advance ?st3)"
  let ?st6 = "?st5\<lparr>pos := pos ?st5 + length b,
                     column_number := column_number ?st5 + int (length b)\<rparr>"
  have rn2: "xml_read_name ?st5 = Inr (b, ?st6)"
    by (rule xml_read_name_reads [OF b, where pre = "''<'' @ a @ ''></''" and rest = "''>''"])
       (simp_all add: xml_initial_state_def nn)
  have ln: "line_number (xml_advance ?st6) = 0"
    by (simp add: xml_advance_def xml_initial_state_def nth_append)
  have ct: "xml_read_closing_tag ?st3 = Inr (b, xml_advance ?st6)"
    using rn2
    by (simp add: xml_read_closing_tag_def xml_match_def xml_peek_def xml_initial_state_def
          nth_append)
  have bd: "xml_read_tag_body (Suc n) a ?st3 = Some (Inl (ClosingNameMismatch b a 0))"
    using es3 ct ab ln
    by (simp add: xml_eof_def xml_peek_def xml_initial_state_def nth_append lookahead2_def)
  have rt: "xml_read_tag (Suc (Suc n)) ?st0 = Some (Inl (ClosingNameMismatch b a 0))"
    using es0 m0 rn at bd by simp
  have pk: "xml_peek ?st0 0 = Inr (CHR ''<'')" "xml_peek ?st0 1 = Inr c"
    using c by (simp_all add: xml_peek_def xml_initial_state_def)
  have c': "c \<noteq> CHR ''?''" "c \<noteq> CHR ''!''"
    using c(2) by (auto simp: xml_is_alpha_def)
  have ne0: "\<not> xml_eof ?st0" by (simp add: xml_eof_def xml_initial_state_def)
  have "xml_read_document_loop (Suc (Suc (Suc n))) True ?st0 =
          Some (Inl (ClosingNameMismatch b a 0))"
    using ne0 pk c' c(2) rt by simp
  then show ?thesis
    using es0 by (simp add: xml_read_document_def fuel3)
qed

lemma closing_mismatch_in_body:
  assumes "\<not> xml_eof st" and "xml_eat_space st = Inr st1"
    and "xml_peek st1 0 = Inr (CHR ''<'')" and "xml_peek st1 1 = Inr (CHR ''/'')"
    and "xml_read_closing_tag st1 = Inr (close_name, st2)" and "close_name \<noteq> tag_name"
  shows "xml_read_tag_body (Suc n) tag_name st =
           Some (Inl (ClosingNameMismatch close_name tag_name (line_number st2)))"
  using assms by (simp add: lookahead2_def)

lemma self_closing_in_attributes:
  assumes ne: "\<not> xml_eof st" and es: "xml_eat_space st = Inr st1"
    and p0: "xml_peek st1 0 = Inr (CHR ''/'')" and p1: "xml_peek st1 1 = Inr (CHR ''>'')"
  shows "\<exists>st2. xml_read_tag_attributes (Suc n) tag_name st = Some (Inr (True, st2))
               \<and> events st2 = events st @ [EndTag tag_name]
               \<and> pos st1 + 2 \<le> pos st2"
proof -
  let ?st3 = "emit (EndTag tag_name) (xml_advance (xml_advance st1))"
  from p1 have lt: "pos st1 + 1 < length (buffer st1)"
    by (simp add: xml_peek_def Let_def split: if_splits)
  have m1: "xml_match st1 (CHR ''/'') = Inr (xml_advance st1)"
    using p0 by (simp add: xml_match_def)
  have "xml_peek (xml_advance st1) 0 = Inr (CHR ''>'')"
    using p1 lt by (simp add: xml_peek_def Let_def)
  then have m2: "xml_match (xml_advance st1) (CHR ''>'') = Inr (xml_advance (xml_advance st1))"
    by (simp add: xml_match_def)
  have "pos ?st3 \<le> length (buffer ?st3)"
    using lt by simp
  from xml_eat_space_total [OF this] obtain st2 where
    e2: "xml_eat_space ?st3 = Inr st2" and ev: "events st2 = events ?st3"
    and ps: "pos ?st3 \<le> pos st2"
    by blast
  have evs: "events st1 = events st"
    using xml_eat_space_keeps [OF es] by simp
  have la: "lookahead2 st1 (CHR ''/'') (\<lambda>c1. c1 = CHR ''>'') = Inr True"
    using p0 p1 by (simp add: lookahead2_def)
  have "xml_read_tag_attributes (Suc n) tag_name st = Some (Inr (True, st2))"
    using ne es p0 m1 m2 e2 la by (simp add: xml_is_alpha_def)
  moreover have "events st2 = events st @ [EndTag tag_name]"
    using ev evs by simp
  moreover have "pos st1 + 2 \<le> pos st2"
    using ps by simp
  ultimately show ?thesis
    by blast
qed

subsection \<open>Events of a successful parse\<close>

text \<open>
  The lexical productions call no callback. The events of a tag are BeginTag, then events
  that close none of the tags open before them, then at most one EndTag; so in the events
  of a successful parse no EndTag arrives without an open tag.
\<close>

lemma xml_match_events: "xml_match st m = Inr st' \<Longrightarrow> events st' = events st"
  by (auto simp: xml_match_def split: sum.splits if_splits)

lemma xml_parse_string_loop_events:
  "xml_parse_string_loop st str = Inr (r, st') \<Longrightarrow> events st' = events st"
proof (induction st str rule: xml_parse_string_loop.induct)
  case (1 st str)
  show ?case
  proof (cases "xml_eof st")
    case True
    then show ?thesis using "1.prems" by (subst (asm) xml_parse_string_loop.simps) simp
  next
    case False
    show ?thesis
    proof (cases "xml_peek st 0")
      case (Inl e)
      then show ?thesis using False "1.prems" by (subst (asm) xml_parse_string_loop.simps) simp
    next
      case (Inr c)
      show ?thesis
      proof (cases "c \<noteq> CHR 0x22")
        case True
        then have "xml_parse_string_loop (xml_advance st) (str @ [c]) = Inr (r, st')"
          using False Inr "1.prems" by (subst (asm) xml_parse_string_loop.simps) simp
        from "1.IH" [OF False Inr True this] show ?thesis
          by simp
      next
        case F2: False
        then show ?thesis using False Inr "1.prems" by (subst (asm) xml_parse_string_loop.simps) auto
      qed
    qed
  qed
qed

lemma xml_read_name_loop_events:
  "xml_read_name_loop st name = Inr (r, st') \<Longrightarrow> events st' = events st"
proof (induction st name rule: xml_read_name_loop.induct)
  case (1 st name)
  show ?case
  proof (cases "xml_eof st")
    case True
    then show ?thesis using "1.prems" by (subst (asm) xml_read_name_loop.simps) simp
  next
    case False
    show ?thesis
    proof (cases "xml_peek st 0")
      case (Inl e)
      then show ?thesis using False "1.prems" by (subst (asm) xml_read_name_loop.simps) simp
    next
      case (Inr c)
      show ?thesis
      proof (cases "xml_is_valid_name_char c")
        case True
        then have "xml_read_name_loop (xml_advance st) (name @ [c]) = Inr (r, st')"
          using False Inr "1.prems" by (subst (asm) xml_read_name_loop.simps) simp
        from "1.IH" [OF False Inr True this] show ?thesis
          by simp
      next
        case F2: False
        then show ?thesis using False Inr "1.prems" by (subst (asm) xml_read_name_loop.simps) auto
      qed
    qed
  qed
qed

lemma xml_read_text_loop_events:
  "xml_read_text_loop st tx = Inr (r, st') \<Longrightarrow> events st' = events st"
proof (induction st tx rule: xml_read_text_loop.induct)
  case (1 st tx)
  show ?case
  proof (cases "xml_eof st")
    case True
    then show ?thesis using "1.prems" by (subst (asm) xml_read_text_loop.simps) simp
  next
    case False
    show ?thesis
    proof (cases "xml_peek st 0")
      case (Inl e)
      then show ?thesis using False "1.prems" by (subst (asm) xml_read_text_loop.simps) simp
    next
      case (Inr c)
      show ?thesis
      proof (cases "c \<noteq> CHR ''<''")
        case True
        then have "xml_read_text_loop (xml_advance st) (tx @ [c]) = Inr (r, st')"
          using False Inr "1.prems" by (subst (asm) xml_read_text_loop.simps) simp
        from "1.IH" [OF False Inr True this] show ?thesis
          by simp
      next
        case F2: False
        then show ?thesis using False Inr "1.prems" by (subst (asm) xml_read_text_loop.simps) auto
      qed
    qed
  qed
qed


lemma xml_read_comment_loop_events:
  "xml_read_comment_loop st hyphen comment = Inr (r, st') \<Longrightarrow> events st' = events st"
proof (induction st hyphen comment rule: xml_read_comment_loop.induct)
  case (1 st hyphen comment)
  show ?case
  proof (cases "xml_eof st")
    case True
    then show ?thesis using "1.prems" by (subst (asm) xml_read_comment_loop.simps) simp
  next
    case False
    show ?thesis
    proof (cases "xml_peek st 0")
      case (Inl e)
      then show ?thesis using False "1.prems"
        by (subst (asm) xml_read_comment_loop.simps) simp
    next
      case (Inr c)
      consider (first) "c = CHR ''-'' \<and> \<not> hyphen" | (second) "c = CHR ''-'' \<and> hyphen"
        | (other) "c \<noteq> CHR ''-''"
        by blast
      then show ?thesis
      proof cases
        case first
        then have "xml_read_comment_loop (xml_advance st) True comment = Inr (r, st')"
          using False Inr "1.prems" by (subst (asm) xml_read_comment_loop.simps) simp
        from "1.IH"(1) [OF False Inr first this] show ?thesis
          by simp
      next
        case second
        then have "xml_match (xml_advance st) (CHR ''>'') = Inr st'"
          using False Inr "1.prems"
          by (subst (asm) xml_read_comment_loop.simps) (simp split: sum.splits)
        from xml_match_events [OF this] show ?thesis
          by simp
      next
        case other
        then have n1: "\<not> (c = CHR ''-'' \<and> \<not> hyphen)" and n2: "\<not> (c = CHR ''-'' \<and> hyphen)"
          by simp_all
        have "xml_read_comment_loop (xml_advance st) False (comment @ [c]) = Inr (r, st')"
          using other False Inr "1.prems" by (subst (asm) xml_read_comment_loop.simps) simp
        from "1.IH"(2) [OF False Inr n1 n2 this] show ?thesis
          by simp
      qed
    qed
  qed
qed

lemmas loop_simps =
  xml_eat_space.simps xml_parse_string_loop.simps xml_read_name_loop.simps
  xml_read_text_loop.simps xml_read_comment_loop.simps

lemma xml_eat_space_events: "xml_eat_space st = Inr st' \<Longrightarrow> events st' = events st"
  using xml_eat_space_keeps by blast

lemma xml_parse_string_events:
  assumes "xml_parse_string st = Inr (r, st')"
  shows "events st' = events st"
proof -
  from assms obtain st1 st2 str st3 where
    "xml_eat_space st = Inr st1" "xml_match st1 (CHR 0x22) = Inr st2"
    "xml_parse_string_loop st2 [] = Inr (str, st3)" "xml_match st3 (CHR 0x22) = Inr st'"
    by (auto simp: xml_parse_string_def simp del: loop_simps split: sum.splits)
  then show ?thesis
    using xml_eat_space_events xml_match_events xml_parse_string_loop_events by metis
qed

lemma xml_read_name_events:
  assumes "xml_read_name st = Inr (r, st')"
  shows "events st' = events st"
proof -
  from assms obtain st1 where
    "xml_eat_space st = Inr st1" "xml_read_name_loop st1 [] = Inr (r, st')"
    by (auto simp: xml_read_name_def simp del: loop_simps split: sum.splits if_splits)
  then show ?thesis
    using xml_eat_space_events xml_read_name_loop_events by metis
qed

lemma xml_read_text_events: "xml_read_text st = Inr (r, st') \<Longrightarrow> events st' = events st"
  unfolding xml_read_text_def by (rule xml_read_text_loop_events)

lemma xml_read_closing_tag_events:
  assumes "xml_read_closing_tag st = Inr (r, st')"
  shows "events st' = events st"
proof -
  from assms obtain st1 st2 st3 where
    "xml_match st (CHR ''<'') = Inr st1" "xml_match st1 (CHR ''/'') = Inr st2"
    "xml_read_name st2 = Inr (r, st3)" "xml_match st3 (CHR ''>'') = Inr st'"
    by (auto simp: xml_read_closing_tag_def simp del: loop_simps split: sum.splits)
  then show ?thesis
    using xml_match_events xml_read_name_events by metis
qed

lemma xml_read_comment_events:
  assumes "xml_read_comment st = Inr (r, st')"
  shows "events st' = events st"
proof -
  from assms obtain st1 st2 st3 st4 where
    "xml_match st (CHR ''<'') = Inr st1" "xml_match st1 (CHR ''!'') = Inr st2"
    "xml_match st2 (CHR ''-'') = Inr st3" "xml_match st3 (CHR ''-'') = Inr st4"
    "xml_read_comment_loop st4 False [] = Inr (r, st')"
    by (auto simp: xml_read_comment_def simp del: loop_simps split: sum.splits)
  then show ?thesis
    using xml_match_events xml_read_comment_loop_events by metis
qed


lemma tag_depth_append:
  "tag_depth d (xs @ ys) = (case tag_depth d xs of None \<Rightarrow> None | Some d' \<Rightarrow> tag_depth d' ys)"
  by (induction d xs rule: tag_depth.induct) (auto split: nat.splits)

lemma emits_nested_same: "events st' = events st \<Longrightarrow> emits_nested k st st'"
  by (simp add: emits_nested_def)

lemma emits_nested_trans:
  assumes "emits_nested 0 st st1" and "emits_nested k st1 st2"
  shows "emits_nested k st st2"
proof -
  from assms(1) obtain xs where xs: "events st1 = events st @ xs"
    and dx: "\<And>d. \<exists>d'. tag_depth d xs = Some d' \<and> d \<le> d'"
    by (auto simp: emits_nested_def)
  from assms(2) obtain ys where ys: "events st2 = events st1 @ ys"
    and dy: "\<And>d. \<exists>d'. tag_depth (d + k) ys = Some d' \<and> d \<le> d'"
    by (auto simp: emits_nested_def)
  have "\<exists>d'. tag_depth (d + k) (xs @ ys) = Some d' \<and> d \<le> d'" for d
  proof -
    from dx [of "d + k"] obtain d1 where d1: "tag_depth (d + k) xs = Some d1" "d + k \<le> d1"
      by blast
    from dy [of "d1 - k"] d1(2) obtain d2 where "tag_depth d1 ys = Some d2" "d1 - k \<le> d2"
      by auto
    then show ?thesis using d1 by (auto simp: tag_depth_append)
  qed
  then show ?thesis using xs ys by (auto simp: emits_nested_def)
qed

lemma emits_nested_weaken: "emits_nested 0 st st' \<Longrightarrow> emits_nested 1 st st'"
  unfolding emits_nested_def by (metis add.right_neutral add_leD1)

lemma emits_nested_events:
  "events st1 = events st \<Longrightarrow> emits_nested k st1 st' \<Longrightarrow> emits_nested k st st'"
  by (simp add: emits_nested_def)

lemma emits_nested_text: "emits_nested k (emit (TagText t) st) st' \<Longrightarrow> emits_nested k st st'"
  by (auto simp: emits_nested_def)

lemma emits_nested_comment: "emits_nested k (emit (Comment c) st) st' \<Longrightarrow> emits_nested k st st'"
  by (auto simp: emits_nested_def)

lemma emits_nested_attribute: "emits_nested k (emit (Attribute a v) st) st' \<Longrightarrow> emits_nested k st st'"
  by (auto simp: emits_nested_def)

lemma emits_nested_begin: "emits_nested 1 (emit (BeginTag name) st) st' \<Longrightarrow> emits_nested 0 st st'"
  by (auto simp: emits_nested_def)

lemma emits_nested_end: "events st' = events (emit (EndTag name) st) \<Longrightarrow> emits_nested 1 st st'"
  by (auto simp: emits_nested_def)


lemma xml_read_header_loop_events:
  "xml_read_header_loop n st = Some (Inr st') \<Longrightarrow> events st' = events st"
proof (induction n arbitrary: st)
  case 0
  then show ?case by simp
next
  case (Suc n)
  from Suc.prems show ?case
    by (auto simp del: loop_simps split: if_splits sum.splits prod.splits
          dest!: Suc.IH xml_eat_space_events xml_read_name_events xml_match_events
                 xml_parse_string_events)
qed

lemma xml_read_header_events:
  "xml_read_header n st = Some (Inr st') \<Longrightarrow> events st' = events st"
  by (auto simp: xml_read_header_def simp del: loop_simps split: sum.splits
        dest!: xml_read_header_loop_events xml_match_events)

lemma xml_read_tag_attributes_nested:
  "xml_read_tag_attributes n tag_name st = Some (Inr (r, st')) \<Longrightarrow>
   (if r then emits_nested 1 st st' else emits_nested 0 st st')"
proof (induction n arbitrary: st)
  case 0
  then show ?case by simp
next
  case (Suc n)
  show ?case
  proof (cases "xml_eof st")
    case True
    then show ?thesis using Suc.prems by (auto intro: emits_nested_same)
  next
    case False
    with Suc.prems obtain st1 c where es: "xml_eat_space st = Inr st1"
      and pk: "xml_peek st1 0 = Inr c"
      by (auto simp del: loop_simps split: sum.splits)
    have e1: "events st1 = events st" using es by (rule xml_eat_space_events)
    show ?thesis
    proof (cases "xml_is_alpha c")
      case True
      with Suc.prems False es pk obtain attrib_name st2 st3 st4 attrib_value st5 where
        a: "xml_read_name st1 = Inr (attrib_name, st2)" "xml_eat_space st2 = Inr st3"
           "xml_match st3 (CHR ''='') = Inr st4" "xml_parse_string st4 = Inr (attrib_value, st5)"
           "xml_read_tag_attributes n tag_name (emit (Attribute attrib_name attrib_value) st5)
              = Some (Inr (r, st'))"
        by (auto simp del: loop_simps split: sum.splits)
      have e5: "events st5 = events st"
        using a(1-4) e1 xml_read_name_events xml_eat_space_events xml_match_events
          xml_parse_string_events by metis
      from Suc.IH [OF a(5)] show ?thesis
        using e5 by (auto split: if_splits dest!: emits_nested_attribute intro: emits_nested_events)
    next
      case na: False
      show ?thesis
      proof (cases "c = CHR ''>''")
        case True
        with Suc.prems False es pk na obtain st2 where
          "xml_match st1 (CHR ''>'') = Inr st2" "r = False" "st' = st2"
          by (auto simp del: loop_simps split: sum.splits)
        then show ?thesis using e1 xml_match_events by (auto intro!: emits_nested_same)
      next
        case ng: False
        from Suc.prems False es pk na ng obtain closing where
          la: "lookahead2 st1 (CHR ''/'') (\<lambda>c1. c1 = CHR ''>'') = Inr closing"
          by (auto simp del: loop_simps split: sum.splits)
        show ?thesis
        proof (cases closing)
          case True
          with Suc.prems False es pk na ng la obtain st2 st3 where
            m: "xml_match st1 (CHR ''/'') = Inr st2" "xml_match st2 (CHR ''>'') = Inr st3"
               "xml_eat_space (emit (EndTag tag_name) st3) = Inr st'" "r = True"
            by (auto simp del: loop_simps split: sum.splits)
          have "events st3 = events st"
            using m(1,2) e1 xml_match_events by metis
          moreover have "events st' = events (emit (EndTag tag_name) st3)"
            using m(3) by (rule xml_eat_space_events)
          ultimately have "events st' = events (emit (EndTag tag_name) st)" by simp
          from emits_nested_end [OF this] show ?thesis using m(4) by simp
        next
          case nc: False
          with Suc.prems False es pk na ng la have
            "xml_read_tag_attributes n tag_name st1 = Some (Inr (r, st'))"
            by (auto simp del: loop_simps split: sum.splits)
          from Suc.IH [OF this] show ?thesis
            using e1 by (auto split: if_splits intro: emits_nested_events)
        qed
      qed
    qed
  qed
qed


lemma xml_read_tag_nested:
  "(\<forall>st st'. xml_read_tag n st = Some (Inr st') \<longrightarrow> emits_nested 0 st st')
   \<and> (\<forall>tag_name st st'. xml_read_tag_body n tag_name st = Some (Inr st') \<longrightarrow> emits_nested 1 st st')"
proof (induction n)
  case 0
  then show ?case by simp
next
  case (Suc n)
  have tag: "emits_nested 0 st st'" if "xml_read_tag n st = Some (Inr st')" for st st'
    using Suc that by blast
  have body: "emits_nested 1 st st'" if "xml_read_tag_body n tag_name st = Some (Inr st')"
    for tag_name st st'
    using Suc that by blast
  have "emits_nested 0 st st'" if t: "xml_read_tag (Suc n) st = Some (Inr st')" for st st'
  proof -
    from t obtain st1 st2 tag_name st3 returned st4 where
      s: "xml_eat_space st = Inr st1" "xml_match st1 (CHR ''<'') = Inr st2"
         "xml_read_name st2 = Inr (tag_name, st3)"
         "xml_read_tag_attributes n tag_name (emit (BeginTag tag_name) st3)
            = Some (Inr (returned, st4))"
      and r: "if returned then st' = st4
              else xml_read_tag_body n tag_name st4 = Some (Inr st')"
      by (auto simp del: loop_simps split: sum.splits option.splits if_splits)
    have e3: "events st3 = events st"
      using s(1-3) xml_eat_space_events xml_match_events xml_read_name_events by metis
    have "emits_nested 1 (emit (BeginTag tag_name) st3) st'"
    proof (cases returned)
      case True
      then show ?thesis using xml_read_tag_attributes_nested [OF s(4)] r by simp
    next
      case False
      then have "emits_nested 0 (emit (BeginTag tag_name) st3) st4"
        using xml_read_tag_attributes_nested [OF s(4)] by simp
      moreover have "emits_nested 1 st4 st'" using False r body by simp
      ultimately show ?thesis by (rule emits_nested_trans)
    qed
    then have "emits_nested 0 st3 st'" by (rule emits_nested_begin)
    with e3 show ?thesis by (auto intro: emits_nested_events)
  qed
  moreover
  have "emits_nested 1 st st'" if b: "xml_read_tag_body (Suc n) tag_name st = Some (Inr st')"
    for tag_name st st'
  proof (cases "xml_eof st")
    case True
    then show ?thesis using b by (auto intro: emits_nested_same)
  next
    case False
    with b obtain st1 closing where es: "xml_eat_space st = Inr st1"
      and l1: "lookahead2 st1 (CHR ''<'') (\<lambda>c1. c1 = CHR ''/'') = Inr closing"
      by (auto simp del: loop_simps split: sum.splits)
    have e1: "events st1 = events st" using es by (rule xml_eat_space_events)
    show ?thesis
    proof (cases closing)
      case True
      with b False es l1 obtain close_name st2 where
        c: "xml_read_closing_tag st1 = Inr (close_name, st2)"
           "st' = emit (EndTag tag_name) st2"
        by (auto simp del: loop_simps split: sum.splits if_splits)
      have "events st2 = events st" using c(1) e1 xml_read_closing_tag_events by metis
      then have "events st' = events (emit (EndTag tag_name) st)" using c(2) by simp
      then show ?thesis by (rule emits_nested_end)
    next
      case n1: False
      with b False es l1 obtain is_comment where
        l2: "lookahead2 st1 (CHR ''<'') (\<lambda>c1. c1 = CHR ''!'') = Inr is_comment"
        by (auto simp del: loop_simps split: sum.splits)
      show ?thesis
      proof (cases is_comment)
        case True
        with b False es l1 n1 l2 obtain comment st2 where
          c: "xml_read_comment st1 = Inr (comment, st2)"
             "xml_read_tag_body n tag_name (emit (Comment comment) st2) = Some (Inr st')"
          by (auto simp del: loop_simps split: sum.splits)
        have e2: "events st2 = events st" using c(1) e1 xml_read_comment_events by metis
        from body [OF c(2)] have "emits_nested 1 st2 st'" by (rule emits_nested_comment)
        with e2 show ?thesis by (auto intro: emits_nested_events)
      next
        case n2: False
        with b False es l1 n1 l2 obtain is_child where
          l3: "lookahead2 st1 (CHR ''<'') (\<lambda>c1. c1 \<noteq> CHR ''/'') = Inr is_child"
          by (auto simp del: loop_simps split: sum.splits)
        show ?thesis
        proof (cases is_child)
          case True
          with b False es l1 n1 l2 n2 l3 obtain st2 where
            c: "xml_read_tag n st1 = Some (Inr st2)"
               "xml_read_tag_body n tag_name st2 = Some (Inr st')"
            by (auto simp del: loop_simps split: sum.splits option.splits)
          have "emits_nested 0 st1 st2" using c(1) by (rule tag)
          moreover have "emits_nested 1 st2 st'" using c(2) by (rule body)
          ultimately have "emits_nested 1 st1 st'" by (rule emits_nested_trans)
          with e1 show ?thesis by (auto intro: emits_nested_events)
        next
          case n3: False
          with b False es l1 n1 l2 n2 l3 obtain tag_text st2 where
            c: "xml_read_text st1 = Inr (tag_text, st2)"
               "xml_read_tag_body n tag_name (emit (TagText tag_text) st2) = Some (Inr st')"
            by (auto simp del: loop_simps split: sum.splits)
          have e2: "events st2 = events st" using c(1) e1 xml_read_text_events by metis
          from body [OF c(2)] have "emits_nested 1 st2 st'" by (rule emits_nested_text)
          with e2 show ?thesis by (auto intro: emits_nested_events)
        qed
      qed
    qed
  qed
  ultimately show ?case by blast
qed


lemma xml_read_document_loop_nested:
  "xml_read_document_loop n first st = Some (Inr st') \<Longrightarrow> emits_nested 0 st st'"
proof (induction n arbitrary: st)
  case 0
  then show ?case by simp
next
  case (Suc n)
  show ?case
  proof (cases "xml_eof st")
    case True
    then show ?thesis using Suc.prems by (auto intro: emits_nested_same)
  next
    case False
    with Suc.prems obtain c1 where pk: "xml_peek st 0 = Inr (CHR ''<'')" "xml_peek st 1 = Inr c1"
      by (auto simp del: loop_simps split: sum.splits if_splits)
    let ?item = "if c1 = CHR ''?'' then
                   (if \<not> first then Some (Inl HeaderMidway) else xml_read_header n st)
                 else if c1 = CHR ''!'' then
                   (case xml_read_comment st of Inl e \<Rightarrow> Some (Inl e)
                    | Inr (comment, st1) \<Rightarrow> Some (Inr (emit (Comment comment) st1)))
                 else if xml_is_alpha c1 then xml_read_tag n st
                 else Some (Inr st)"
    define item where "item = ?item"
    have "xml_read_document_loop (Suc n) first st =
            (case item of
               None \<Rightarrow> None
             | Some (Inl e) \<Rightarrow> Some (Inl e)
             | Some (Inr st1) \<Rightarrow>
                 (case xml_eat_space st1 of Inl e \<Rightarrow> Some (Inl e)
                  | Inr st2 \<Rightarrow> xml_read_document_loop n first st2))"
      using False pk unfolding item_def by (simp del: loop_simps)
    with Suc.prems obtain st1 st2 where
      i': "item = Some (Inr st1)" and es: "xml_eat_space st1 = Inr st2"
      and l: "xml_read_document_loop n first st2 = Some (Inr st')"
      by (auto simp del: loop_simps xml_read_document_loop.simps
            split: sum.splits option.splits)
    have i: "?item = Some (Inr st1)" using i' by (simp add: item_def)
    have "emits_nested 0 st st1"
    proof (cases "c1 = CHR ''?''")
      case True
      with i have "xml_read_header n st = Some (Inr st1)" by (auto split: if_splits)
      then show ?thesis by (auto dest: xml_read_header_events intro: emits_nested_same)
    next
      case q: False
      show ?thesis
      proof (cases "c1 = CHR ''!''")
        case True
        with i q obtain comment st0 where
          c: "xml_read_comment st = Inr (comment, st0)" "st1 = emit (Comment comment) st0"
          by (auto split: sum.splits)
        have "emits_nested 0 (emit (Comment comment) st0) st1" using c(2) by (simp add: emits_nested_same)
        then have "emits_nested 0 st0 st1" by (rule emits_nested_comment)
        then show ?thesis using xml_read_comment_events [OF c(1)] by (auto intro: emits_nested_events)
      next
        case e: False
        show ?thesis
        proof (cases "xml_is_alpha c1")
          case True
          with i q e have "xml_read_tag n st = Some (Inr st1)" by simp
          then show ?thesis using xml_read_tag_nested by blast
        next
          case False
          with i q e show ?thesis by (simp add: emits_nested_same)
        qed
      qed
    qed
    moreover have "emits_nested 0 st1 st2"
      using xml_eat_space_events [OF es] by (rule emits_nested_same)
    moreover have "emits_nested 0 st2 st'" using l by (rule Suc.IH)
    ultimately show ?thesis by (blast intro: emits_nested_trans)
  qed
qed

lemma successful_parse_never_closes_unopened:
  assumes "xml_read_document n (xml_initial_state b) = Some (Inr st)"
  shows "\<exists>d. tag_depth 0 (events st) = Some d"
proof -
  from assms obtain st1 where es: "xml_eat_space (xml_initial_state b) = Inr st1"
    and l: "xml_read_document_loop n True st1 = Some (Inr st)"
    by (auto simp: xml_read_document_def simp del: loop_simps split: sum.splits)
  have "events st1 = []" using xml_eat_space_events [OF es] by (simp add: xml_initial_state_def)
  moreover from xml_read_document_loop_nested [OF l] obtain evs where
    "events st = events st1 @ evs" "\<exists>d'. tag_depth (0 + 0) evs = Some d' \<and> 0 \<le> d'"
    unfolding emits_nested_def by blast
  ultimately show ?thesis by auto
qed

subsection \<open>Closing tags\<close>

text \<open>
  The body loop compares each closing name with the name of the tag it was called for,
  whatever stands between the opening and the closing tag. When the body loop of a tag
  \<open>t\<close> returns and the events it emitted close that tag (they bring the depth 1 to 0),
  the body loop of a tag with another name, on the same input, reads the same content and
  fails at the same closing tag.
\<close>

lemma closing_mismatch_after_content:
  "xml_read_tag_body n t st = Some (Inr st') \<Longrightarrow> events st' = events st @ evs \<Longrightarrow>
   tag_depth 1 evs = Some 0 \<Longrightarrow> t \<noteq> t' \<Longrightarrow>
   xml_read_tag_body n t' st = Some (Inl (ClosingNameMismatch t t' (line_number st')))"
proof (induction n arbitrary: st evs)
  case 0
  then show ?case by simp
next
  case (Suc n)
  note b = Suc.prems(1) and ev = Suc.prems(2) and dp = Suc.prems(3) and ne = Suc.prems(4)
  have body: "emits_nested 1 s s'" if "xml_read_tag_body n t s = Some (Inr s')" for s s'
    using xml_read_tag_nested [of n] that by blast
  have tag: "emits_nested 0 s s'" if "xml_read_tag n s = Some (Inr s')" for s s'
    using xml_read_tag_nested [of n] that by blast
  have False if "xml_eof st"
    using that b ev dp by simp
  then have ne0: "\<not> xml_eof st" by blast
  with b obtain st1 closing where es: "xml_eat_space st = Inr st1"
    and l1: "lookahead2 st1 (CHR ''<'') (\<lambda>c1. c1 = CHR ''/'') = Inr closing"
    by (auto simp del: loop_simps split: sum.splits)
  have e1: "events st1 = events st" using es by (rule xml_eat_space_events)
  show ?case
  proof (cases closing)
    case True
    with b ne0 es l1 obtain st2 where
      c: "xml_read_closing_tag st1 = Inr (t, st2)" "st' = emit (EndTag t) st2"
      by (auto simp del: loop_simps split: sum.splits if_splits)
    then show ?thesis using ne0 es l1 True ne by (simp del: loop_simps)
  next
    case n1: False
    with b ne0 es l1 obtain is_comment where
      l2: "lookahead2 st1 (CHR ''<'') (\<lambda>c1. c1 = CHR ''!'') = Inr is_comment"
      by (auto simp del: loop_simps split: sum.splits)
    show ?thesis
    proof (cases is_comment)
      case True
      with b ne0 es l1 n1 l2 obtain comment st2 where
        c: "xml_read_comment st1 = Inr (comment, st2)"
           "xml_read_tag_body n t (emit (Comment comment) st2) = Some (Inr st')"
        by (auto simp del: loop_simps split: sum.splits)
      have e2: "events st2 = events st" using c(1) e1 xml_read_comment_events by metis
      from body [OF c(2)] obtain ys where
        ys: "events st' = events (emit (Comment comment) st2) @ ys"
        by (auto simp: emits_nested_def)
      with e2 ev have "evs = Comment comment # ys" by simp
      with dp have "tag_depth 1 ys = Some 0" by simp
      from Suc.IH [OF c(2) ys this ne]
      show ?thesis using ne0 es l1 n1 l2 True c(1) by (simp del: loop_simps)
    next
      case n2: False
      with b ne0 es l1 n1 l2 obtain is_child where
        l3: "lookahead2 st1 (CHR ''<'') (\<lambda>c1. c1 \<noteq> CHR ''/'') = Inr is_child"
        by (auto simp del: loop_simps split: sum.splits)
      show ?thesis
      proof (cases is_child)
        case True
        with b ne0 es l1 n1 l2 n2 l3 obtain st2 where
          c: "xml_read_tag n st1 = Some (Inr st2)"
             "xml_read_tag_body n t st2 = Some (Inr st')"
          by (auto simp del: loop_simps split: sum.splits option.splits)
        from tag [OF c(1)] obtain xs where xs: "events st2 = events st1 @ xs"
          and dx: "\<And>d. \<exists>d'. tag_depth d xs = Some d' \<and> d \<le> d'"
          by (auto simp: emits_nested_def)
        from body [OF c(2)] obtain ys where ys: "events st' = events st2 @ ys"
          and dy: "\<And>d. \<exists>d'. tag_depth (d + 1) ys = Some d' \<and> d \<le> d'"
          by (auto simp: emits_nested_def)
        from xs ys e1 ev have evs: "evs = xs @ ys" by simp
        from dx [of 1] obtain d1 where d1: "tag_depth 1 xs = Some d1" "1 \<le> d1" by blast
        from dp evs d1 have d0: "tag_depth d1 ys = Some 0" by (simp add: tag_depth_append)
        from dy [of "d1 - 1"] d1(2) d0 have "d1 = 1" by auto
        with d0 have "tag_depth 1 ys = Some 0" by simp
        from Suc.IH [OF c(2) ys this ne]
        show ?thesis using ne0 es l1 n1 l2 n2 l3 True c(1) by (simp del: loop_simps)
      next
        case n3: False
        with b ne0 es l1 n1 l2 n2 l3 obtain tag_text st2 where
          c: "xml_read_text st1 = Inr (tag_text, st2)"
             "xml_read_tag_body n t (emit (TagText tag_text) st2) = Some (Inr st')"
          by (auto simp del: loop_simps split: sum.splits)
        have e2: "events st2 = events st" using c(1) e1 xml_read_text_events by metis
        from body [OF c(2)] obtain ys where
          ys: "events st' = events (emit (TagText tag_text) st2) @ ys"
          by (auto simp: emits_nested_def)
        with e2 ev have "evs = TagText tag_text # ys" by simp
        with dp have "tag_depth 1 ys = Some 0" by simp
        from Suc.IH [OF c(2) ys this ne]
        show ?thesis using ne0 es l1 n1 l2 n2 l3 n3 c(1) by (simp del: loop_simps)
      qed
    qed
  qed
qed

lemma closing_mismatch_of_tag:
  assumes es: "xml_eat_space st = Inr st1" and m: "xml_match st1 (CHR ''<'') = Inr st2"
    and rn: "xml_read_name st2 = Inr (nm, st3)"
    and at: "xml_read_tag_attributes n nm (emit (BeginTag nm) st3) = Some (Inr (False, st4))"
    and b: "xml_read_tag_body n t st4 = Some (Inr st')"
    and ev: "events st' = events st4 @ evs" and dp: "tag_depth 1 evs = Some 0"
    and ne: "t \<noteq> nm"
  shows "xml_read_tag (Suc n) st = Some (Inl (ClosingNameMismatch t nm (line_number st')))"
  using es m rn at closing_mismatch_after_content [OF b ev dp ne] by simp

lemma fuel7: "n + 7 = Suc (Suc (Suc (Suc (Suc (Suc (Suc n))))))"
  by simp

text \<open>
  C7. The claim: parsing \<open><a></b>\<close> fails with an error that names both \<open>a\<close> and \<open>b\<close>
  and a line number, and so does every tag whose closing name differs from its opening name.
  The first part is the parse of that buffer. The second part is the same parse for any two
  different names in place of \<open>a\<close> and \<open>b\<close>. The third part is about the body loop of
  \<open>xml_read_tag\<close> for any tag name, in any state: when the input continues with \<open></\<close>
  and the closing tag that is read there has another name, the result is the error that
  carries the closing name, the tag name and the line. The fourth part is about tags with
  content, in any state: when the text, comments and child tags that follow are closed by a
  closing tag with the name \<open>t\<close> (the body loop for \<open>t\<close> returns, and the events it
  emitted bring the depth 1 to 0), the body loop for any other tag name \<open>t'\<close> fails with
  the error that carries \<open>t\<close>, \<open>t'\<close> and the line of that closing tag. The fifth part is
  the same for \<open>xml_read_tag\<close>: a tag that opens with the name \<open>nm\<close>, has any attributes
  and any content, and is closed with another name \<open>t\<close>, is an error that carries \<open>t\<close>,
  \<open>nm\<close> and the line. The last three parts are the parses of \<open><a><b></b></b>\<close>,
  where the last tag read before the wrong closing tag has the name of that closing tag, of
  a tag with an attribute, text, a comment and a child tag before the wrong closing tag, and
  of a tag with text on the second line of the input and inside another tag, where the
  error carries the line 1 and is the result of the whole parse.
\<close>

theorem closing_name_mismatch:
  \<open>(\<forall>n. xml_read_document (n + 3) (xml_initial_state ''<a></b>'') =
          Some (Inl (ClosingNameMismatch ''b'' ''a'' 0)))
   \<and> (\<forall>n a b. xml_name a \<longrightarrow> xml_name b \<longrightarrow> b \<noteq> a \<longrightarrow>
         xml_read_document (n + 3) (xml_initial_state (''<'' @ a @ ''></'' @ b @ ''>'')) =
           Some (Inl (ClosingNameMismatch b a 0)))
   \<and> (\<forall>n tag_name st st1 close_name st2.
         \<not> xml_eof st \<longrightarrow> xml_eat_space st = Inr st1 \<longrightarrow>
         xml_peek st1 0 = Inr (CHR ''<'') \<longrightarrow> xml_peek st1 1 = Inr (CHR ''/'') \<longrightarrow>
         xml_read_closing_tag st1 = Inr (close_name, st2) \<longrightarrow> close_name \<noteq> tag_name \<longrightarrow>
         xml_read_tag_body (Suc n) tag_name st =
           Some (Inl (ClosingNameMismatch close_name tag_name (line_number st2))))
   \<and> (\<forall>n t t' st st' evs.
         xml_read_tag_body n t st = Some (Inr st') \<longrightarrow> events st' = events st @ evs \<longrightarrow>
         tag_depth 1 evs = Some 0 \<longrightarrow> t \<noteq> t' \<longrightarrow>
         xml_read_tag_body n t' st =
           Some (Inl (ClosingNameMismatch t t' (line_number st'))))
   \<and> (\<forall>n st st1 st2 nm st3 st4 t st' evs.
         xml_eat_space st = Inr st1 \<longrightarrow> xml_match st1 (CHR ''<'') = Inr st2 \<longrightarrow>
         xml_read_name st2 = Inr (nm, st3) \<longrightarrow>
         xml_read_tag_attributes n nm (emit (BeginTag nm) st3) = Some (Inr (False, st4)) \<longrightarrow>
         xml_read_tag_body n t st4 = Some (Inr st') \<longrightarrow> events st' = events st4 @ evs \<longrightarrow>
         tag_depth 1 evs = Some 0 \<longrightarrow> t \<noteq> nm \<longrightarrow>
         xml_read_tag (Suc n) st =
           Some (Inl (ClosingNameMismatch t nm (line_number st'))))
   \<and> (\<forall>n. xml_read_document (n + 5) (xml_initial_state ''<a><b></b></b>'') =
          Some (Inl (ClosingNameMismatch ''b'' ''a'' 0)))
   \<and> (\<forall>n. xml_read_document (n + 7) (xml_initial_state ''<a x="1">t<!--c--><b/></c>'') =
          Some (Inl (ClosingNameMismatch ''c'' ''a'' 0)))
   \<and> (\<forall>n. xml_read_document (n + 6)
            (xml_initial_state (''<r>'' @ [CHR 0x0A] @ ''<a>t</b></r>'')) =
          Some (Inl (ClosingNameMismatch ''b'' ''a'' 1)))\<close>
proof (intro conjI allI impI)
  fix n
  show \<open>xml_read_document (n + 3) (xml_initial_state ''<a></b>'') =
          Some (Inl (ClosingNameMismatch ''b'' ''a'' 0))\<close>
    unfolding fuel3 by (simp add: xml_eval)
next
  fix n a b
  assume "xml_name a" "xml_name b" "b \<noteq> a"
  then show "xml_read_document (n + 3) (xml_initial_state (''<'' @ a @ ''></'' @ b @ ''>'')) =
           Some (Inl (ClosingNameMismatch b a 0))"
    by (rule closing_mismatch_any_names)
next
  fix n tag_name st st1 close_name st2
  assume "\<not> xml_eof st" "xml_eat_space st = Inr st1"
    "xml_peek st1 0 = Inr (CHR ''<'')" "xml_peek st1 1 = Inr (CHR ''/'')"
    "xml_read_closing_tag st1 = Inr (close_name, st2)" "close_name \<noteq> tag_name"
  then show "xml_read_tag_body (Suc n) tag_name st =
           Some (Inl (ClosingNameMismatch close_name tag_name (line_number st2)))"
    by (rule closing_mismatch_in_body)
next
  fix n t t' and st st' :: xml_state and evs
  assume "xml_read_tag_body n t st = Some (Inr st')" "events st' = events st @ evs"
    "tag_depth 1 evs = Some 0" "t \<noteq> t'"
  then show "xml_read_tag_body n t' st =
           Some (Inl (ClosingNameMismatch t t' (line_number st')))"
    by (rule closing_mismatch_after_content)
next
  fix n nm t evs and st st1 st2 st3 st4 st' :: xml_state
  assume "xml_eat_space st = Inr st1" "xml_match st1 (CHR ''<'') = Inr st2"
    "xml_read_name st2 = Inr (nm, st3)"
    "xml_read_tag_attributes n nm (emit (BeginTag nm) st3) = Some (Inr (False, st4))"
    "xml_read_tag_body n t st4 = Some (Inr st')" "events st' = events st4 @ evs"
    "tag_depth 1 evs = Some 0" "t \<noteq> nm"
  then show "xml_read_tag (Suc n) st =
           Some (Inl (ClosingNameMismatch t nm (line_number st')))"
    by (rule closing_mismatch_of_tag)
next
  fix n
  show \<open>xml_read_document (n + 5) (xml_initial_state ''<a><b></b></b>'') =
          Some (Inl (ClosingNameMismatch ''b'' ''a'' 0))\<close>
    unfolding fuel5 by (simp add: xml_eval)
next
  fix n
  show \<open>xml_read_document (n + 7) (xml_initial_state ''<a x="1">t<!--c--><b/></c>'') =
          Some (Inl (ClosingNameMismatch ''c'' ''a'' 0))\<close>
    unfolding fuel7 by (simp add: xml_eval)
next
  fix n
  have f: "n + 6 = Suc (Suc (Suc (Suc (Suc (Suc n)))))" by simp
  show \<open>xml_read_document (n + 6)
            (xml_initial_state (''<r>'' @ [CHR 0x0A] @ ''<a>t</b></r>'')) =
          Some (Inl (ClosingNameMismatch ''b'' ''a'' 1))\<close>
    unfolding f by (simp add: xml_eval)
qed

theorem closing_name_mismatch_witness:
  \<open>xml_name ''item'' \<and> xml_name ''list_2''
   \<and> xml_read_document 3 (xml_initial_state ''<item></list_2>'') =
       Some (Inl (ClosingNameMismatch ''list_2'' ''item'' 0))
   \<and> xml_read_closing_tag
      \<lparr>buffer = ''<a></b>'', pos = 3, line_number = 0, column_number = 3,
         events = [BeginTag ''a'']\<rparr> =
      Inr (''b'', \<lparr>buffer = ''<a></b>'', pos = 7, line_number = 0, column_number = 7,
                    events = [BeginTag ''a'']\<rparr>)
   \<and> xml_read_tag_body (Suc 0) ''a''
      \<lparr>buffer = ''<a></b>'', pos = 3, line_number = 0, column_number = 3,
         events = [BeginTag ''a'']\<rparr> = Some (Inl (ClosingNameMismatch ''b'' ''a'' 0))
   \<and> xml_read_tag_body 3 ''b''
      \<lparr>buffer = ''<a><b></b></b>'', pos = 3, line_number = 0, column_number = 3,
         events = [BeginTag ''a'']\<rparr> =
      Some (Inr \<lparr>buffer = ''<a><b></b></b>'', pos = 14, line_number = 0, column_number = 14,
                  events = [BeginTag ''a'', BeginTag ''b'', EndTag ''b'', EndTag ''b'']\<rparr>)
   \<and> tag_depth 1 [BeginTag ''b'', EndTag ''b'', EndTag ''b''] = Some 0
   \<and> xml_read_tag_body 3 ''a''
      \<lparr>buffer = ''<a><b></b></b>'', pos = 3, line_number = 0, column_number = 3,
         events = [BeginTag ''a'']\<rparr> = Some (Inl (ClosingNameMismatch ''b'' ''a'' 0))
   \<and> xml_read_tag_attributes 5 ''a''
      \<lparr>buffer = ''<a x="1">t<!--c--><b/></c>'', pos = 2, line_number = 0, column_number = 2,
         events = [BeginTag ''a'']\<rparr> =
      Some (Inr (False,
        \<lparr>buffer = ''<a x="1">t<!--c--><b/></c>'', pos = 9, line_number = 0,
           column_number = 9,
           events = [BeginTag ''a'', Attribute ''x'' [CHR ''1'', CHR 0x00]]\<rparr>))
   \<and> xml_read_tag_body 5 ''c''
      \<lparr>buffer = ''<a x="1">t<!--c--><b/></c>'', pos = 9, line_number = 0, column_number = 9,
         events = [BeginTag ''a'', Attribute ''x'' [CHR ''1'', CHR 0x00]]\<rparr> =
      Some (Inr \<lparr>buffer = ''<a x="1">t<!--c--><b/></c>'', pos = 26, line_number = 0,
                  column_number = 26,
                  events = [BeginTag ''a'', Attribute ''x'' [CHR ''1'', CHR 0x00],
                            TagText ''t'', Comment ''c'', BeginTag ''b'', EndTag ''b'',
                            EndTag ''c'']\<rparr>)
   \<and> tag_depth 1 [TagText ''t'', Comment ''c'', BeginTag ''b'', EndTag ''b'', EndTag ''c'']
       = Some 0
   \<and> xml_read_tag 6 (xml_initial_state ''<a x="1">t<!--c--><b/></c>'') =
       Some (Inl (ClosingNameMismatch ''c'' ''a'' 0))\<close>
proof -
  note parts = closing_name_mismatch
  let ?st = \<open>\<lparr>buffer = ''<a></b>'', pos = 3, line_number = 0, column_number = 3,
               events = [BeginTag ''a'']\<rparr>\<close>
  let ?st2 = \<open>\<lparr>buffer = ''<a></b>'', pos = 7, line_number = 0, column_number = 7,
                events = [BeginTag ''a'']\<rparr>\<close>
  have n1: "xml_name ''item''" and n2: "xml_name ''list_2''"
    by (simp_all add: xml_name_def xml_is_valid_name_char_def xml_is_alpha_def xml_is_digit_def)
  have n3: "''list_2'' \<noteq> ''item''" by simp
  from parts [THEN conjunct2, THEN conjunct1, rule_format, OF n1 n2 n3, of 0]
  have g2: \<open>xml_read_document 3 (xml_initial_state ''<item></list_2>'') =
       Some (Inl (ClosingNameMismatch ''list_2'' ''item'' 0))\<close>
    by simp
  have h1: "\<not> xml_eof ?st" by (simp add: xml_eof_def)
  have h2: "xml_eat_space ?st = Inr ?st" by (simp add: xml_eval)
  have h3: "xml_peek ?st 0 = Inr (CHR ''<'')" by (simp add: xml_peek_def)
  have h4: "xml_peek ?st 1 = Inr (CHR ''/'')" by (simp add: xml_peek_def)
  have h5: "xml_read_closing_tag ?st = Inr (''b'', ?st2)" by (simp add: xml_eval)
  have h6: "''b'' \<noteq> ''a''" by simp
  from parts [THEN conjunct2, THEN conjunct2, THEN conjunct1, rule_format,
      OF h1 h2 h3 h4 h5 h6, of 0]
  have g3: "xml_read_tag_body (Suc 0) ''a'' ?st = Some (Inl (ClosingNameMismatch ''b'' ''a'' 0))"
    by simp
  let ?s = \<open>\<lparr>buffer = ''<a><b></b></b>'', pos = 3, line_number = 0, column_number = 3,
              events = [BeginTag ''a'']\<rparr>\<close>
  let ?s' = \<open>\<lparr>buffer = ''<a><b></b></b>'', pos = 14, line_number = 0, column_number = 14,
               events = [BeginTag ''a'', BeginTag ''b'', EndTag ''b'', EndTag ''b'']\<rparr>\<close>
  have f3: "(3::nat) = Suc (Suc (Suc 0))" by simp
  have k1: "xml_read_tag_body 3 ''b'' ?s = Some (Inr ?s')"
    unfolding f3 by (simp add: xml_eval)
  have k2: "events ?s' = events ?s @ [BeginTag ''b'', EndTag ''b'', EndTag ''b'']" by simp
  have k3: "tag_depth 1 [BeginTag ''b'', EndTag ''b'', EndTag ''b''] = Some 0" by simp
  from parts [THEN conjunct2, THEN conjunct2, THEN conjunct2, THEN conjunct1, rule_format,
      OF k1 k2 k3 h6]
  have g4: "xml_read_tag_body 3 ''a'' ?s = Some (Inl (ClosingNameMismatch ''b'' ''a'' 0))"
    by simp
  let ?b = \<open>''<a x="1">t<!--c--><b/></c>''\<close>
  let ?r0 = "xml_initial_state ?b"
  let ?r1 = "\<lparr>buffer = ?b, pos = 1, line_number = 0, column_number = 1, events = []\<rparr>"
  let ?r2 = "\<lparr>buffer = ?b, pos = 2, line_number = 0, column_number = 2, events = []\<rparr>"
  let ?r2e = "\<lparr>buffer = ?b, pos = 2, line_number = 0, column_number = 2,
                events = [BeginTag ''a'']\<rparr>"
  let ?r9 = "\<lparr>buffer = ?b, pos = 9, line_number = 0, column_number = 9,
               events = [BeginTag ''a'', Attribute ''x'' [CHR ''1'', CHR 0x00]]\<rparr>"
  let ?r26 = "\<lparr>buffer = ?b, pos = 26, line_number = 0, column_number = 26,
                events = [BeginTag ''a'', Attribute ''x'' [CHR ''1'', CHR 0x00],
                          TagText ''t'', Comment ''c'', BeginTag ''b'', EndTag ''b'',
                          EndTag ''c'']\<rparr>"
  have f5: "(5::nat) = Suc (Suc (Suc (Suc (Suc 0))))" by simp
  have q1: "xml_eat_space ?r0 = Inr ?r0" by (simp add: xml_eval)
  have q2: "xml_match ?r0 (CHR ''<'') = Inr ?r1" by (simp add: xml_eval)
  have q3: "xml_read_name ?r1 = Inr (''a'', ?r2)" by (simp add: xml_eval)
  have q4e: "emit (BeginTag ''a'') ?r2 = ?r2e" by (simp add: emit_def)
  have q4: "xml_read_tag_attributes 5 ''a'' ?r2e = Some (Inr (False, ?r9))"
    unfolding f5 by (simp add: xml_eval)
  have q5: "xml_read_tag_body 5 ''c'' ?r9 = Some (Inr ?r26)"
    unfolding f5 by (simp add: xml_eval)
  have q6: "events ?r26 = events ?r9
      @ [TagText ''t'', Comment ''c'', BeginTag ''b'', EndTag ''b'', EndTag ''c'']"
    by simp
  have q7: "tag_depth 1
      [TagText ''t'', Comment ''c'', BeginTag ''b'', EndTag ''b'', EndTag ''c''] = Some 0"
    by simp
  have q8: "''c'' \<noteq> ''a''" by simp
  from parts [THEN conjunct2, THEN conjunct2, THEN conjunct2, THEN conjunct2, THEN conjunct1,
      rule_format, OF q1 q2 q3 q4 [folded q4e] q5 q6 q7 q8]
  have g5: "xml_read_tag 6 ?r0 = Some (Inl (ClosingNameMismatch ''c'' ''a'' 0))"
    by simp
  from n1 n2 g2 h5 g3 k1 k3 g4 q4 q5 q7 g5 show ?thesis
    by (intro conjI)
qed

subsection \<open>Self-closing tags\<close>

text \<open>
  \<open>xml_read_tag\<close> on a self-closing tag, in any state and with any input after it: the
  state it returns is the one after \<open>/>\<close> and the space that follows.
\<close>

lemma self_closing_returns:
  assumes es: "xml_eat_space st = Inr st1" and m: "xml_match st1 (CHR ''<'') = Inr st2"
    and rn: "xml_read_name st2 = Inr (nm, st3)"
    and es3: "xml_eat_space (emit (BeginTag nm) st3) = Inr st4"
    and p0: "xml_peek st4 0 = Inr (CHR ''/'')" and p1: "xml_peek st4 1 = Inr (CHR ''>'')"
  shows "\<exists>st'. xml_eat_space (emit (EndTag nm) (xml_advance (xml_advance st4))) = Inr st'
               \<and> xml_read_tag (Suc (Suc n)) st = Some (Inr st')
               \<and> events st' = events st @ [BeginTag nm, EndTag nm]"
proof -
  let ?st3 = "emit (BeginTag nm) st3"
  let ?st5 = "emit (EndTag nm) (xml_advance (xml_advance st4))"
  from p1 have lt: "pos st4 + 1 < length (buffer st4)"
    by (simp add: xml_peek_def Let_def split: if_splits)
  have k: "events st4 = events ?st3" "buffer st4 = buffer ?st3" "pos ?st3 \<le> pos st4"
    using xml_eat_space_keeps [OF es3] by simp_all
  have ne: "\<not> xml_eof ?st3"
    using k lt by (simp add: xml_eof_def)
  have m1: "xml_match st4 (CHR ''/'') = Inr (xml_advance st4)"
    using p0 by (simp add: xml_match_def)
  have "xml_peek (xml_advance st4) 0 = Inr (CHR ''>'')"
    using p1 lt by (simp add: xml_peek_def Let_def)
  then have m2: "xml_match (xml_advance st4) (CHR ''>'') = Inr (xml_advance (xml_advance st4))"
    by (simp add: xml_match_def)
  have "pos ?st5 \<le> length (buffer ?st5)"
    using lt by simp
  from xml_eat_space_total [OF this] obtain st' where
    e5: "xml_eat_space ?st5 = Inr st'" and ev: "events st' = events ?st5"
    by blast
  have la: "lookahead2 st4 (CHR ''/'') (\<lambda>c1. c1 = CHR ''>'') = Inr True"
    using p0 p1 by (simp add: lookahead2_def)
  have at: "xml_read_tag_attributes (Suc n) nm ?st3 = Some (Inr (True, st'))"
    using ne es3 p0 m1 m2 e5 la by (simp add: xml_is_alpha_def)
  have rt: "xml_read_tag (Suc (Suc n)) st = Some (Inr st')"
    using es m rn at by simp
  have "events st3 = events st"
    using xml_eat_space_events [OF es] xml_match_events [OF m] xml_read_name_events [OF rn]
    by simp
  then have "events st' = events st @ [BeginTag nm, EndTag nm]"
    using ev k(1) by simp
  with e5 rt show ?thesis by blast
qed

lemma self_closing_before_rest:
  assumes nm: "xml_name nm" and r: "rest = [] \<or> \<not> xml_is_space (hd rest)"
  shows "xml_read_tag (n + 2) (xml_initial_state (''<'' @ nm @ ''/>'' @ rest)) =
     Some (Inr \<lparr>buffer = ''<'' @ nm @ ''/>'' @ rest, pos = length nm + 3, line_number = 0,
                 column_number = int (length nm) + 3,
                 events = [BeginTag nm, EndTag nm]\<rparr>)"
proof -
  let ?b = "''<'' @ nm @ ''/>'' @ rest"
  let ?st0 = "xml_initial_state ?b"
  let ?st1 = "xml_advance ?st0"
  from nm obtain c cs where c: "nm = c # cs" "xml_is_alpha c"
    by (cases nm) (auto simp: xml_name_def)
  have sp: "\<not> xml_is_space (CHR ''<'')" "\<not> xml_is_space (CHR ''/'')"
    by (simp_all add: xml_is_space_def)
  have es0: "xml_eat_space ?st0 = Inr ?st0"
    by (intro xml_eat_space_stays) (simp_all add: xml_initial_state_def sp)
  have m0: "xml_match ?st0 (CHR ''<'') = Inr ?st1"
    by (simp add: xml_match_def xml_peek_def xml_initial_state_def)
  let ?st2 = "?st1\<lparr>pos := pos ?st1 + length nm,
                     column_number := column_number ?st1 + int (length nm)\<rparr>"
  have rn: "xml_read_name ?st1 = Inr (nm, ?st2)"
    by (rule xml_read_name_reads [OF nm, where pre = "''<''" and rest = "''/>'' @ rest"])
       (simp_all add: xml_initial_state_def xml_is_valid_name_char_def xml_is_alpha_def
          xml_is_digit_def)
  let ?st2e = "emit (BeginTag nm) ?st2"
  have es2: "xml_eat_space ?st2e = Inr ?st2e"
    by (intro xml_eat_space_stays) (simp_all add: xml_initial_state_def nth_append sp)
  let ?st3 = "emit (EndTag nm) (xml_advance (xml_advance ?st2e))"
  have es3: "xml_eat_space ?st3 = Inr ?st3"
  proof (cases rest)
    case Nil
    then show ?thesis by (intro xml_eat_space_at_end) (simp add: xml_initial_state_def)
  next
    case (Cons x xs)
    with r have "\<not> xml_is_space x" by simp
    then show ?thesis
      using Cons by (intro xml_eat_space_stays) (simp_all add: xml_initial_state_def nth_append)
  qed
  have at: "xml_read_tag_attributes (Suc n) nm ?st2e = Some (Inr (True, ?st3))"
    using es2 es3
    by (simp add: xml_initial_state_def xml_eof_def xml_peek_def nth_append xml_is_alpha_def
          lookahead2_def xml_match_def)
  have rt: "xml_read_tag (Suc (Suc n)) ?st0 = Some (Inr ?st3)"
    using es0 m0 rn at by simp
  moreover have "?st3 = \<lparr>buffer = ?b, pos = length nm + 3, line_number = 0,
                 column_number = int (length nm) + 3,
                 events = [BeginTag nm, EndTag nm]\<rparr>"
    using c by (simp add: xml_initial_state_def xml_advance_def emit_def nth_append)
  ultimately show ?thesis by (simp add: fuel2)
qed

text \<open>
  C8. The claim: parsing \<open><a/>\<close> succeeds and emits exactly BeginTag a and EndTag a, and
  on reading \<open>/>\<close> the tag parser emits EndTag and returns without scanning a body. The
  first part is the parse of that buffer. The second part is the same parse for any name in
  place of \<open>a\<close>. The third part is about the attribute loop of \<open>xml_read_tag\<close> for any
  tag name, in any state: when the input continues, after optional space, with \<open>/>\<close>, the
  loop leaves through its \<open>return\<close> (the flag \<open>True\<close>, on which \<open>xml_read_tag\<close> does
  not enter the body loop), having emitted EndTag for the tag name and nothing else, and
  having consumed the two characters. The fourth part is about \<open>xml_read_tag\<close> itself, in
  any state and with any input after the tag: when the input is \<open><\<close>, a name, optional
  space and \<open>/>\<close>, \<open>xml_read_tag\<close> returns the state in which only these characters
  and the space after them are consumed, and has emitted BeginTag and EndTag for the name
  and nothing else. The fifth part is the state that \<open>xml_read_tag\<close> returns on a buffer
  that starts with a self-closing tag of any name and goes on with any text that does not
  start with space: the position is the one after \<open>/>\<close>. The sixth part is the parse of
  \<open><r><a/></r>\<close>, in which the closing tag after \<open><a/>\<close> is matched against
  \<open>r\<close>. The last part is \<open>xml_read_tag\<close> at the child tag of \<open><r> <a />  </r>\<close>,
  which returns at the closing tag of \<open>r\<close>.
\<close>

theorem self_closing_tag:
  \<open>(\<forall>n. xml_read_document (n + 3) (xml_initial_state ''<a/>'') =
          Some (Inr \<lparr>buffer = ''<a/>'', pos = 4, line_number = 0, column_number = 4,
                      events = [BeginTag ''a'', EndTag ''a'']\<rparr>))
   \<and> (\<forall>n nm. xml_name nm \<longrightarrow>
         xml_read_document (n + 3) (xml_initial_state (''<'' @ nm @ ''/>'')) =
           Some (Inr \<lparr>buffer = ''<'' @ nm @ ''/>'', pos = length nm + 3, line_number = 0,
                       column_number = int (length nm) + 3,
                       events = [BeginTag nm, EndTag nm]\<rparr>))
   \<and> (\<forall>n tag_name st st1.
         \<not> xml_eof st \<longrightarrow> xml_eat_space st = Inr st1 \<longrightarrow>
         xml_peek st1 0 = Inr (CHR ''/'') \<longrightarrow> xml_peek st1 1 = Inr (CHR ''>'') \<longrightarrow>
         (\<exists>st2. xml_read_tag_attributes (Suc n) tag_name st = Some (Inr (True, st2))
               \<and> events st2 = events st @ [EndTag tag_name]
               \<and> pos st1 + 2 \<le> pos st2))
   \<and> (\<forall>n st st1 st2 nm st3 st4.
         xml_eat_space st = Inr st1 \<longrightarrow> xml_match st1 (CHR ''<'') = Inr st2 \<longrightarrow>
         xml_read_name st2 = Inr (nm, st3) \<longrightarrow>
         xml_eat_space (emit (BeginTag nm) st3) = Inr st4 \<longrightarrow>
         xml_peek st4 0 = Inr (CHR ''/'') \<longrightarrow> xml_peek st4 1 = Inr (CHR ''>'') \<longrightarrow>
         (\<exists>st'. xml_eat_space (emit (EndTag nm) (xml_advance (xml_advance st4))) = Inr st'
               \<and> xml_read_tag (Suc (Suc n)) st = Some (Inr st')
               \<and> events st' = events st @ [BeginTag nm, EndTag nm]))
   \<and> (\<forall>n nm rest. xml_name nm \<longrightarrow> (rest = [] \<or> \<not> xml_is_space (hd rest)) \<longrightarrow>
         xml_read_tag (n + 2) (xml_initial_state (''<'' @ nm @ ''/>'' @ rest)) =
           Some (Inr \<lparr>buffer = ''<'' @ nm @ ''/>'' @ rest, pos = length nm + 3,
                       line_number = 0, column_number = int (length nm) + 3,
                       events = [BeginTag nm, EndTag nm]\<rparr>))
   \<and> (\<forall>n. xml_read_document (n + 5) (xml_initial_state ''<r><a/></r>'') =
          Some (Inr \<lparr>buffer = ''<r><a/></r>'', pos = 11, line_number = 0,
                      column_number = 11,
                      events = [BeginTag ''r'', BeginTag ''a'', EndTag ''a'',
                                EndTag ''r'']\<rparr>))
   \<and> (\<forall>n. xml_read_tag (n + 2)
            \<lparr>buffer = ''<r> <a />  </r>'', pos = 3, line_number = 0, column_number = 3,
               events = [BeginTag ''r'']\<rparr> =
          Some (Inr \<lparr>buffer = ''<r> <a />  </r>'', pos = 11, line_number = 0,
                      column_number = 11,
                      events = [BeginTag ''r'', BeginTag ''a'', EndTag ''a'']\<rparr>))\<close>
proof (intro conjI allI impI)
  fix n
  show \<open>xml_read_document (n + 3) (xml_initial_state ''<a/>'') =
          Some (Inr \<lparr>buffer = ''<a/>'', pos = 4, line_number = 0, column_number = 4,
                      events = [BeginTag ''a'', EndTag ''a'']\<rparr>)\<close>
    unfolding fuel3 by (simp add: xml_eval)
next
  fix n nm
  assume "xml_name nm"
  then show "xml_read_document (n + 3) (xml_initial_state (''<'' @ nm @ ''/>'')) =
           Some (Inr \<lparr>buffer = ''<'' @ nm @ ''/>'', pos = length nm + 3, line_number = 0,
                       column_number = int (length nm) + 3,
                       events = [BeginTag nm, EndTag nm]\<rparr>)"
    by (rule self_closing_any_name)
next
  fix n tag_name st st1
  assume "\<not> xml_eof st" "xml_eat_space st = Inr st1"
    "xml_peek st1 0 = Inr (CHR ''/'')" "xml_peek st1 1 = Inr (CHR ''>'')"
  then show "\<exists>st2. xml_read_tag_attributes (Suc n) tag_name st = Some (Inr (True, st2))
               \<and> events st2 = events st @ [EndTag tag_name] \<and> pos st1 + 2 \<le> pos st2"
    by (rule self_closing_in_attributes)
next
  fix n nm and st st1 st2 st3 st4 :: xml_state
  assume "xml_eat_space st = Inr st1" "xml_match st1 (CHR ''<'') = Inr st2"
    "xml_read_name st2 = Inr (nm, st3)" "xml_eat_space (emit (BeginTag nm) st3) = Inr st4"
    "xml_peek st4 0 = Inr (CHR ''/'')" "xml_peek st4 1 = Inr (CHR ''>'')"
  then show "\<exists>st'. xml_eat_space (emit (EndTag nm) (xml_advance (xml_advance st4))) = Inr st'
               \<and> xml_read_tag (Suc (Suc n)) st = Some (Inr st')
               \<and> events st' = events st @ [BeginTag nm, EndTag nm]"
    by (rule self_closing_returns)
next
  fix n nm rest
  assume "xml_name nm" "rest = [] \<or> \<not> xml_is_space (hd rest)"
  then show "xml_read_tag (n + 2) (xml_initial_state (''<'' @ nm @ ''/>'' @ rest)) =
           Some (Inr \<lparr>buffer = ''<'' @ nm @ ''/>'' @ rest, pos = length nm + 3,
                       line_number = 0, column_number = int (length nm) + 3,
                       events = [BeginTag nm, EndTag nm]\<rparr>)"
    by (rule self_closing_before_rest)
next
  fix n
  show \<open>xml_read_document (n + 5) (xml_initial_state ''<r><a/></r>'') =
          Some (Inr \<lparr>buffer = ''<r><a/></r>'', pos = 11, line_number = 0,
                      column_number = 11,
                      events = [BeginTag ''r'', BeginTag ''a'', EndTag ''a'',
                                EndTag ''r'']\<rparr>)\<close>
    unfolding fuel5 by (simp add: xml_eval)
next
  fix n
  show \<open>xml_read_tag (n + 2)
            \<lparr>buffer = ''<r> <a />  </r>'', pos = 3, line_number = 0, column_number = 3,
               events = [BeginTag ''r'']\<rparr> =
          Some (Inr \<lparr>buffer = ''<r> <a />  </r>'', pos = 11, line_number = 0,
                      column_number = 11,
                      events = [BeginTag ''r'', BeginTag ''a'', EndTag ''a'']\<rparr>)\<close>
    unfolding fuel2 by (simp add: xml_eval)
qed

theorem self_closing_tag_witness:
  \<open>xml_name ''br_2''
   \<and> xml_read_document 3 (xml_initial_state ''<br_2/>'') =
       Some (Inr \<lparr>buffer = ''<br_2/>'', pos = 7, line_number = 0, column_number = 7,
                   events = [BeginTag ''br_2'', EndTag ''br_2'']\<rparr>)
   \<and> (\<exists>st2. xml_read_tag_attributes (Suc 0) ''a''
           \<lparr>buffer = ''<a/>'', pos = 2, line_number = 0, column_number = 2,
              events = [BeginTag ''a'']\<rparr> = Some (Inr (True, st2))
         \<and> events st2 = [BeginTag ''a'', EndTag ''a''] \<and> 4 \<le> pos st2)
   \<and> xml_read_tag 2
        \<lparr>buffer = ''<r><a/></r>'', pos = 3, line_number = 0, column_number = 3,
           events = [BeginTag ''r'']\<rparr> =
      Some (Inr \<lparr>buffer = ''<r><a/></r>'', pos = 7, line_number = 0, column_number = 7,
                  events = [BeginTag ''r'', BeginTag ''a'', EndTag ''a'']\<rparr>)
   \<and> \<not> xml_is_space (hd ''</r>'')
   \<and> xml_read_tag 2 (xml_initial_state ''<br_2/></r>'') =
       Some (Inr \<lparr>buffer = ''<br_2/></r>'', pos = 7, line_number = 0, column_number = 7,
                   events = [BeginTag ''br_2'', EndTag ''br_2'']\<rparr>)\<close>
proof -
  note parts = self_closing_tag
  let ?st = \<open>\<lparr>buffer = ''<a/>'', pos = 2, line_number = 0, column_number = 2,
               events = [BeginTag ''a'']\<rparr>\<close>
  have n1: "xml_name ''br_2''"
    by (simp add: xml_name_def xml_is_valid_name_char_def xml_is_alpha_def xml_is_digit_def)
  from parts [THEN conjunct2, THEN conjunct1, rule_format, OF n1, of 0]
  have g2: \<open>xml_read_document 3 (xml_initial_state ''<br_2/>'') =
       Some (Inr \<lparr>buffer = ''<br_2/>'', pos = 7, line_number = 0, column_number = 7,
                   events = [BeginTag ''br_2'', EndTag ''br_2'']\<rparr>)\<close>
    by simp
  have h1: "\<not> xml_eof ?st" by (simp add: xml_eof_def)
  have h2: "xml_eat_space ?st = Inr ?st" by (simp add: xml_eval)
  have h3: "xml_peek ?st 0 = Inr (CHR ''/'')" by (simp add: xml_peek_def)
  have h4: "xml_peek ?st 1 = Inr (CHR ''>'')" by (simp add: xml_peek_def)
  from parts [THEN conjunct2, THEN conjunct2, THEN conjunct1, rule_format,
      OF h1 h2 h3 h4, of 0 "''a''"]
  have g3: \<open>\<exists>st2. xml_read_tag_attributes (Suc 0) ''a'' ?st = Some (Inr (True, st2))
         \<and> events st2 = [BeginTag ''a'', EndTag ''a''] \<and> 4 \<le> pos st2\<close>
    by simp
  let ?b = "''<r><a/></r>''"
  let ?s3 = "\<lparr>buffer = ?b, pos = 3, line_number = 0, column_number = 3,
               events = [BeginTag ''r'']\<rparr>"
  let ?s4 = "\<lparr>buffer = ?b, pos = 4, line_number = 0, column_number = 4,
               events = [BeginTag ''r'']\<rparr>"
  let ?s5 = "\<lparr>buffer = ?b, pos = 5, line_number = 0, column_number = 5,
               events = [BeginTag ''r'']\<rparr>"
  let ?s5e = "\<lparr>buffer = ?b, pos = 5, line_number = 0, column_number = 5,
                events = [BeginTag ''r'', BeginTag ''a'']\<rparr>"
  let ?s7 = "\<lparr>buffer = ?b, pos = 7, line_number = 0, column_number = 7,
               events = [BeginTag ''r'', BeginTag ''a'', EndTag ''a'']\<rparr>"
  have q1: "xml_eat_space ?s3 = Inr ?s3" by (simp add: xml_eval)
  have q2: "xml_match ?s3 (CHR ''<'') = Inr ?s4" by (simp add: xml_eval)
  have q3: "xml_read_name ?s4 = Inr (''a'', ?s5)" by (simp add: xml_eval)
  have q4: "xml_eat_space (emit (BeginTag ''a'') ?s5) = Inr ?s5e" by (simp add: xml_eval)
  have q5: "xml_peek ?s5e 0 = Inr (CHR ''/'')" by (simp add: xml_peek_def)
  have q6: "xml_peek ?s5e 1 = Inr (CHR ''>'')" by (simp add: xml_peek_def)
  have q7: "xml_eat_space (emit (EndTag ''a'') (xml_advance (xml_advance ?s5e))) = Inr ?s7"
    by (simp add: xml_eval)
  from parts [THEN conjunct2, THEN conjunct2, THEN conjunct2, THEN conjunct1, rule_format,
      OF q1 q2 q3 q4 q5 q6, of 0] q7
  have g4: "xml_read_tag 2 ?s3 = Some (Inr ?s7)"
    by (auto simp: numeral_2_eq_2)
  have r1: "\<not> xml_is_space (hd ''</r>'')" by (simp add: xml_is_space_def)
  then have r2: "''</r>'' = [] \<or> \<not> xml_is_space (hd ''</r>'')" by simp
  from parts [THEN conjunct2, THEN conjunct2, THEN conjunct2, THEN conjunct2, THEN conjunct1,
      rule_format, OF n1 r2, of 0]
  have g5: \<open>xml_read_tag 2 (xml_initial_state ''<br_2/></r>'') =
       Some (Inr \<lparr>buffer = ''<br_2/></r>'', pos = 7, line_number = 0, column_number = 7,
                   events = [BeginTag ''br_2'', EndTag ''br_2'']\<rparr>)\<close>
    by (simp add: numeral_2_eq_2 del: xml_read_tag.simps)
  from n1 g2 g3 g4 r1 g5 show ?thesis
    by (intro conjI)
qed

section \<open>Properties of the document tree\<close>

lemmas dom_eval =
  deref_def new_entity_def set_type_def set_name_def set_value_def get_name_def get_value_def
  num_children_def get_child_def add_child_def add_tag_def add_attribute_def add_comment_def
  first_child_def next_child_def previous_child_def first_child_of_type_def
  next_child_of_type_def next_sibling_def previous_sibling_def next_sibling_of_type_def
  first_child_tag_def first_child_attribute_def next_sibling_attribute_def
  xml_dom_begin_tag_cb_def xml_dom_end_tag_cb_def xml_dom_tag_text_cb_def
  xml_dom_comment_cb_def xml_dom_attribute_cb_def xml_dom_build_def xml_dom_parse_def

lemmas example_heaps =
  document_root_def one_child_def two_children_def tag_with_attribute_def
  tag_with_attribute_text_def tag_with_attribute_reparsed_def

lemma fuel6: "n + 6 = Suc (Suc (Suc (Suc (Suc (Suc n)))))"
  by simp

subsection \<open>Neighbours\<close>

text \<open>
  What the two methods return for the child at index \<open>i\<close> of a receiver.
\<close>

lemma next_child_at_index:
  assumes "this < length h" and "m_type (h ! this) \<noteq> XML_DOM_INVALID" and "c < length h"
    and "m_parent (h ! c) = Some this" and "m_index (h ! c) = int i"
    and "i < length (m_child (h ! this))"
  shows "next_child h this c =
           Inr (if i + 1 < length (m_child (h ! this)) then Some (m_child (h ! this) ! (i + 1))
                else None)"
  using assms
  by (auto simp: next_child_def deref_def num_children_def get_child_def nat_add_distrib)

lemma previous_child_at_index:
  assumes "this < length h" and "m_type (h ! this) \<noteq> XML_DOM_INVALID" and "c < length h"
    and "m_parent (h ! c) = Some this" and "m_index (h ! c) = int i"
    and "i < length (m_child (h ! this))"
  shows "previous_child h this c =
           (if i + 1 < length (m_child (h ! this))
            then (if i = 0 then Inl AssertionFailed
                  else Inr (Some (m_child (h ! this) ! (i - 1))))
            else Inr None)"
  using assms
  by (auto simp: previous_child_def deref_def num_children_def get_child_def nat_diff_distrib)

text \<open>
  C2. The claim: among children at indices 0..n-1, \<open>next_child\<close> of the child at index i
  is the child at index i+1, or NULL for the last child, and \<open>previous_child\<close> is its
  inverse: the child at index i-1, or NULL for the first child. The heap \<open>two_children\<close> is
  a Document (address 0) to which \<open>add_tag\<close> has added the tags \<open>a\<close> (address 1, index
  0) and \<open>b\<close> (address 2, index 1). \<open>next_child\<close> does what the claim says.
  \<open>previous_child\<close> of the last child is NULL and not the first child, and
  \<open>previous_child\<close> of the first child fails the assertion of \<open>get_child\<close> on the index
  -1: \<open>previous_child\<close> tests \<open>m_index < num_children()-1\<close>, the condition of
  \<open>next_child\<close>.
\<close>

theorem previous_child_of_last_is_null:
  "add_tag [document_root] 0 ''a'' = Inr (one_child, 1)
   \<and> add_tag one_child 0 ''b'' = Inr (two_children, 2)
   \<and> next_child two_children 0 1 = Inr (Some 2)
   \<and> next_child two_children 0 2 = Inr None
   \<and> previous_child two_children 0 2 = Inr None
   \<and> previous_child two_children 0 1 = Inl AssertionFailed"
  by (simp add: dom_eval example_heaps)

subsection \<open>The index invariant\<close>

lemma add_child_result:
  assumes "add_child h this child = Inr h'"
  shows "this < length h" and "child < length h" and "length h' = length h"
    and "m_type (h ! this) \<noteq> XML_DOM_INVALID"
    and "\<And>a. a < length h \<Longrightarrow>
           m_parent (h' ! a) = (if a = child then Some this else m_parent (h ! a))"
    and "\<And>a. a < length h \<Longrightarrow>
           m_index (h' ! a) = (if a = child then int (length (m_child (h ! this))) else m_index (h ! a))"
    and "\<And>a. a < length h \<Longrightarrow>
           m_child (h' ! a) = (if a = this then m_child (h ! this) @ [child] else m_child (h ! a))"
    and "\<And>a. a < length h \<Longrightarrow> m_type (h' ! a) = m_type (h ! a)"
    and "\<And>a. a < length h \<Longrightarrow> m_name (h' ! a) = m_name (h ! a)"
    and "\<And>a. a < length h \<Longrightarrow> m_value (h' ! a) = m_value (h ! a)"
  using assms
  by (auto simp: add_child_def deref_def Let_def nth_list_update split: if_splits)
























subsection \<open>The invariant seen from the parent\<close>

text \<open>
  An entity that has no parent yet is in no child sequence, so adding it keeps the
  invariant of the child sequences; every entity that the convenience methods and the
  callbacks add is a new one. In a heap with this invariant the neighbour methods return,
  for the child at position \<open>i\<close>, what they return for the stored index \<open>i\<close>.
\<close>

lemma owner_invariant_frame:
  assumes "owner_invariant h" and "length h' = length h"
    and "\<And>a. a < length h \<Longrightarrow> m_parent (h' ! a) = m_parent (h ! a)"
    and "\<And>a. a < length h \<Longrightarrow> m_index (h' ! a) = m_index (h ! a)"
    and "\<And>a. a < length h \<Longrightarrow> m_child (h' ! a) = m_child (h ! a)"
  shows "owner_invariant h'"
  using assms unfolding owner_invariant_def by simp

lemma set_type_owner:
  assumes "owner_invariant h" and "set_type h a t = Inr h'"
  shows "owner_invariant h'"
proof (rule owner_invariant_frame [OF assms(1)])
  from assms(2) have h': "a < length h" "h' = h[a := (h ! a)\<lparr>m_type := t\<rparr>]"
    by (auto simp: set_type_def deref_def split: if_splits)
  show "length h' = length h" using h' by simp
  show "\<And>b. b < length h \<Longrightarrow> m_parent (h' ! b) = m_parent (h ! b)"
    using h' by (simp add: nth_list_update)
  show "\<And>b. b < length h \<Longrightarrow> m_index (h' ! b) = m_index (h ! b)"
    using h' by (simp add: nth_list_update)
  show "\<And>b. b < length h \<Longrightarrow> m_child (h' ! b) = m_child (h ! b)"
    using h' by (simp add: nth_list_update)
qed

lemma set_name_owner:
  assumes "owner_invariant h" and "set_name h a name = Inr h'"
  shows "owner_invariant h'"
proof (rule owner_invariant_frame [OF assms(1)])
  from assms(2) have h': "a < length h" "h' = h[a := (h ! a)\<lparr>m_name := name\<rparr>]"
    by (auto simp: set_name_def deref_def split: if_splits)
  show "length h' = length h" using h' by simp
  show "\<And>b. b < length h \<Longrightarrow> m_parent (h' ! b) = m_parent (h ! b)"
    using h' by (simp add: nth_list_update)
  show "\<And>b. b < length h \<Longrightarrow> m_index (h' ! b) = m_index (h ! b)"
    using h' by (simp add: nth_list_update)
  show "\<And>b. b < length h \<Longrightarrow> m_child (h' ! b) = m_child (h ! b)"
    using h' by (simp add: nth_list_update)
qed

lemma set_value_owner:
  assumes "owner_invariant h" and "set_value h a v = Inr h'"
  shows "owner_invariant h'"
proof (rule owner_invariant_frame [OF assms(1)])
  from assms(2) have h': "a < length h" "h' = h[a := (h ! a)\<lparr>m_value := v\<rparr>]"
    by (auto simp: set_value_def deref_def split: if_splits)
  show "length h' = length h" using h' by simp
  show "\<And>b. b < length h \<Longrightarrow> m_parent (h' ! b) = m_parent (h ! b)"
    using h' by (simp add: nth_list_update)
  show "\<And>b. b < length h \<Longrightarrow> m_index (h' ! b) = m_index (h ! b)"
    using h' by (simp add: nth_list_update)
  show "\<And>b. b < length h \<Longrightarrow> m_child (h' ! b) = m_child (h ! b)"
    using h' by (simp add: nth_list_update)
qed

lemma add_child_owner:
  assumes inv: "owner_invariant h" and ac: "add_child h this child = Inr h'"
    and un: "\<forall>p < length h. child \<notin> set (m_child (h ! p))"
  shows "owner_invariant h'"
  unfolding owner_invariant_def
proof (intro allI impI)
  fix p i assume p': "p < length h'" and i': "i < length (m_child (h' ! p))"
  note r = add_child_result [OF ac]
  have p: "p < length h" using p' r(3) by simp
  let ?c = "m_child (h' ! p) ! i"
  show "?c < length h' \<and> m_parent (h' ! ?c) = Some p \<and> m_index (h' ! ?c) = int i"
  proof (cases "p = this \<and> i = length (m_child (h ! this))")
    case True
    then have "?c = child" using r(7) [OF p] by simp
    then show ?thesis using True r(2,3) r(5) [OF r(2)] r(6) [OF r(2)] by simp
  next
    case False
    then have i: "i < length (m_child (h ! p))" and c: "?c = m_child (h ! p) ! i"
      using i' r(7) [OF p] by (auto simp: nth_append split: if_splits)
    from inv p i have o: "m_child (h ! p) ! i < length h"
      "m_parent (h ! (m_child (h ! p) ! i)) = Some p"
      "m_index (h ! (m_child (h ! p) ! i)) = int i"
      by (simp_all add: owner_invariant_def)
    have "m_child (h ! p) ! i \<noteq> child" using un p i by (metis nth_mem)
    then show ?thesis using c o r(3) r(5) [OF o(1)] r(6) [OF o(1)] by simp
  qed
qed


lemma owner_invariant_parentless:
  assumes "owner_invariant h" and "m_parent (h ! a) = None"
  shows "\<forall>p < length h. a \<notin> set (m_child (h ! p))"
proof (intro allI impI notI)
  fix p assume p: "p < length h" and "a \<in> set (m_child (h ! p))"
  then obtain i where "i < length (m_child (h ! p))" "m_child (h ! p) ! i = a"
    by (auto simp: in_set_conv_nth)
  with assms(1) p have "m_parent (h ! a) = Some p"
    by (auto simp: owner_invariant_def)
  with assms(2) show False by simp
qed

lemma new_entity_owner:
  assumes "owner_invariant h" and "new_entity h = (h', a)"
  shows "owner_invariant h'" and "a < length h'" and "m_parent (h' ! a) = None"
proof -
  from assms(2) have h': "h' = h @ [\<lparr>m_type = XML_DOM_INVALID, m_parent = None, m_child = [],
                                    m_index = - 1, m_name = [], m_value = []\<rparr>]"
    and a: "a = length h"
    by (simp_all add: new_entity_def)
  show "a < length h'" "m_parent (h' ! a) = None" using h' a by simp_all
  show "owner_invariant h'"
    unfolding owner_invariant_def
  proof (intro allI impI)
    fix p i assume p': "p < length h'" and i': "i < length (m_child (h' ! p))"
    have p: "p < length h" using p' i' h' by (cases "p = length h") auto
    then have same: "h' ! p = h ! p" using h' by (simp add: nth_append)
    with assms(1) p i' have o: "m_child (h ! p) ! i < length h"
      "m_parent (h ! (m_child (h ! p) ! i)) = Some p"
      "m_index (h ! (m_child (h ! p) ! i)) = int i"
      by (simp_all add: owner_invariant_def)
    then show "m_child (h' ! p) ! i < length h'
        \<and> m_parent (h' ! (m_child (h' ! p) ! i)) = Some p
        \<and> m_index (h' ! (m_child (h' ! p) ! i)) = int i"
      using same h' by (simp add: nth_append)
  qed
qed

lemma set_type_parent:
  "set_type h a t = Inr h' \<Longrightarrow> b < length h \<Longrightarrow>
   length h' = length h \<and> m_parent (h' ! b) = m_parent (h ! b)"
  by (auto simp: set_type_def deref_def nth_list_update split: if_splits)

lemma set_name_parent:
  "set_name h a name = Inr h' \<Longrightarrow> b < length h \<Longrightarrow>
   length h' = length h \<and> m_parent (h' ! b) = m_parent (h ! b)"
  by (auto simp: set_name_def deref_def nth_list_update split: if_splits)

lemma set_value_parent:
  "set_value h a v = Inr h' \<Longrightarrow> b < length h \<Longrightarrow>
   length h' = length h \<and> m_parent (h' ! b) = m_parent (h ! b)"
  by (auto simp: set_value_def deref_def nth_list_update split: if_splits)

lemma add_child_parentless_owner:
  assumes "owner_invariant h" and "add_child h this child = Inr h'"
    and "m_parent (h ! child) = None"
  shows "owner_invariant h'"
  using assms(1,2) owner_invariant_parentless [OF assms(1,3)] by (rule add_child_owner)

lemma add_tag_owner:
  assumes inv: "owner_invariant h" and at: "add_tag h this name = Inr (h', a)"
  shows "owner_invariant h'"
proof -
  obtain h1 tag where ne: "new_entity h = (h1, tag)" by (cases "new_entity h")
  from at ne obtain h2 h3 where
    s: "set_type h1 tag XML_DOM_TAG = Inr h2" "set_name h2 tag name = Inr h3"
       "add_child h3 this tag = Inr h'"
    by (auto simp: add_tag_def split: sum.splits if_splits)
  note n = new_entity_owner [OF inv ne]
  have "owner_invariant h2" using n(1) s(1) by (rule set_type_owner)
  then have i3: "owner_invariant h3" using s(2) by (rule set_name_owner)
  have "m_parent (h3 ! tag) = None"
    using n(2,3) set_type_parent [OF s(1)] set_name_parent [OF s(2)] by simp
  with i3 s(3) show ?thesis by (rule add_child_parentless_owner)
qed

lemma add_attribute_owner:
  assumes inv: "owner_invariant h" and at: "add_attribute h this name v = Inr (h', a)"
  shows "owner_invariant h'"
proof -
  obtain h1 attr where ne: "new_entity h = (h1, attr)" by (cases "new_entity h")
  from at ne obtain h2 h3 h4 where
    s: "set_type h1 attr XML_DOM_ATTRIBUTE = Inr h2" "set_name h2 attr name = Inr h3"
       "set_value h3 attr v = Inr h4" "add_child h4 this attr = Inr h'"
    by (auto simp: add_attribute_def split: sum.splits if_splits)
  note n = new_entity_owner [OF inv ne]
  have "owner_invariant h2" using n(1) s(1) by (rule set_type_owner)
  then have "owner_invariant h3" using s(2) by (rule set_name_owner)
  then have i4: "owner_invariant h4" using s(3) by (rule set_value_owner)
  have "m_parent (h4 ! attr) = None"
    using n(2,3) set_type_parent [OF s(1)] set_name_parent [OF s(2)] set_value_parent [OF s(3)]
    by simp
  with i4 s(4) show ?thesis by (rule add_child_parentless_owner)
qed

lemma add_comment_owner:
  assumes inv: "owner_invariant h" and at: "add_comment h this comment = Inr (h', a)"
  shows "owner_invariant h'"
proof -
  obtain h1 comm where ne: "new_entity h = (h1, comm)" by (cases "new_entity h")
  from at ne obtain h2 h3 where
    s: "set_type h1 comm XML_DOM_COMMENT = Inr h2" "set_value h2 comm comment = Inr h3"
       "add_child h3 this comm = Inr h'"
    by (auto simp: add_comment_def split: sum.splits if_splits)
  note n = new_entity_owner [OF inv ne]
  have "owner_invariant h2" using n(1) s(1) by (rule set_type_owner)
  then have i3: "owner_invariant h3" using s(2) by (rule set_value_owner)
  have "m_parent (h3 ! comm) = None"
    using n(2,3) set_type_parent [OF s(1)] set_value_parent [OF s(2)] by simp
  with i3 s(3) show ?thesis by (rule add_child_parentless_owner)
qed

lemma xml_dom_callback_owner:
  assumes inv: "owner_invariant h" and cb: "xml_dom_callback (h, stack) ev = Inr (h', stack')"
  shows "owner_invariant h'"
proof (cases ev)
  case (BeginTag name)
  obtain h1 tag where ne: "new_entity h = (h1, tag)" by (cases "new_entity h")
  from cb BeginTag ne obtain h2 h3 where
    s: "set_type h1 tag XML_DOM_TAG = Inr h2" "set_name h2 tag name = Inr h3"
       "add_child h3 (last stack) tag = Inr h'"
    by (auto simp: xml_dom_begin_tag_cb_def split: sum.splits if_splits)
  note n = new_entity_owner [OF inv ne]
  have "owner_invariant h2" using n(1) s(1) by (rule set_type_owner)
  then have i3: "owner_invariant h3" using s(2) by (rule set_name_owner)
  have "m_parent (h3 ! tag) = None"
    using n(2,3) set_type_parent [OF s(1)] set_name_parent [OF s(2)] by simp
  with i3 s(3) show ?thesis by (rule add_child_parentless_owner)
next
  case (EndTag name)
  with cb inv show ?thesis by (auto simp: xml_dom_end_tag_cb_def split: if_splits)
next
  case (TagText t)
  with cb have "set_value h (last stack) t = Inr h'"
    by (auto simp: xml_dom_tag_text_cb_def split: sum.splits if_splits)
  with inv show ?thesis by (rule set_value_owner)
next
  case (Comment comment)
  obtain h1 cm where ne: "new_entity h = (h1, cm)" by (cases "new_entity h")
  from cb Comment ne obtain h2 h3 where
    s: "set_type h1 cm XML_DOM_COMMENT = Inr h2" "set_value h2 cm comment = Inr h3"
       "add_child h3 (last stack) cm = Inr h'"
    by (auto simp: xml_dom_comment_cb_def split: sum.splits if_splits)
  note n = new_entity_owner [OF inv ne]
  have "owner_invariant h2" using n(1) s(1) by (rule set_type_owner)
  then have i3: "owner_invariant h3" using s(2) by (rule set_value_owner)
  have "m_parent (h3 ! cm) = None"
    using n(2,3) set_type_parent [OF s(1)] set_value_parent [OF s(2)] by simp
  with i3 s(3) show ?thesis by (rule add_child_parentless_owner)
next
  case (Attribute name v)
  obtain h1 attrib where ne: "new_entity h = (h1, attrib)" by (cases "new_entity h")
  from cb Attribute ne obtain h2 h3 h4 where
    s: "set_type h1 attrib XML_DOM_ATTRIBUTE = Inr h2" "set_name h2 attrib name = Inr h3"
       "set_value h3 attrib v = Inr h4" "add_child h4 (last stack) attrib = Inr h'"
    by (auto simp: xml_dom_attribute_cb_def split: sum.splits if_splits)
  note n = new_entity_owner [OF inv ne]
  have "owner_invariant h2" using n(1) s(1) by (rule set_type_owner)
  then have "owner_invariant h3" using s(2) by (rule set_name_owner)
  then have i4: "owner_invariant h4" using s(3) by (rule set_value_owner)
  have "m_parent (h4 ! attrib) = None"
    using n(2,3) set_type_parent [OF s(1)] set_name_parent [OF s(2)] set_value_parent [OF s(3)]
    by simp
  with i4 s(4) show ?thesis by (rule add_child_parentless_owner)
qed

lemma next_child_in_tree:
  assumes "owner_invariant h" and "p < length h" and "m_type (h ! p) \<noteq> XML_DOM_INVALID"
    and "i < length (m_child (h ! p))"
  shows "next_child h p (m_child (h ! p) ! i) =
           Inr (if i + 1 < length (m_child (h ! p)) then Some (m_child (h ! p) ! (i + 1))
                else None)"
proof -
  from assms(1,2,4) have "m_child (h ! p) ! i < length h"
    "m_parent (h ! (m_child (h ! p) ! i)) = Some p"
    "m_index (h ! (m_child (h ! p) ! i)) = int i"
    by (simp_all add: owner_invariant_def)
  then show ?thesis
    using assms(2,3,4) by (intro next_child_at_index) simp_all
qed

lemma previous_child_in_tree:
  assumes "owner_invariant h" and "p < length h" and "m_type (h ! p) \<noteq> XML_DOM_INVALID"
    and "i < length (m_child (h ! p))"
  shows "previous_child h p (m_child (h ! p) ! i) =
           (if i + 1 < length (m_child (h ! p))
            then (if i = 0 then Inl AssertionFailed
                  else Inr (Some (m_child (h ! p) ! (i - 1))))
            else Inr None)"
proof -
  from assms(1,2,4) have "m_child (h ! p) ! i < length h"
    "m_parent (h ! (m_child (h ! p) ! i)) = Some p"
    "m_index (h ! (m_child (h ! p) ! i)) = int i"
    by (simp_all add: owner_invariant_def)
  then show ?thesis
    using assms(2,3,4) by (intro previous_child_at_index) simp_all
qed

subsection \<open>Nesting of tags\<close>

text \<open>
  With a valid stack a callback cannot fail, except the end-tag callback on a stack of
  one. Over the events of a successful parse the builder therefore never fails, the front
  of its stack stays the Document root, and the stack ends one longer than the number of
  tags left open.
\<close>

lemma stack_valid_last:
  assumes "stack_valid h stack"
  obtains p where "last stack = p" and "p < length h" and "m_type (h ! p) \<noteq> XML_DOM_INVALID"
  using assms by (simp add: stack_valid_def)

lemma begin_tag_cb_stack:
  assumes "stack_valid h stack"
  shows "\<exists>h'. xml_dom_begin_tag_cb (h, stack) name = Inr (h', stack @ [length h])
              \<and> stack_valid h' (stack @ [length h])"
proof -
  from assms obtain p where p: "last stack = p" "p < length h" "m_type (h ! p) \<noteq> XML_DOM_INVALID"
    by (rule stack_valid_last)
  from assms have ne: "stack \<noteq> []"
    and all: "\<forall>a\<in>set stack. a < length h \<and> m_type (h ! a) \<noteq> XML_DOM_INVALID"
    by (simp_all add: stack_valid_def)
  show ?thesis
    using p ne all
    by (auto simp: xml_dom_begin_tag_cb_def new_entity_def set_type_def set_name_def
          add_child_def deref_def Let_def stack_valid_def nth_append nth_list_update)
qed

lemma end_tag_cb_stack:
  assumes "stack_valid h stack" and "2 \<le> length stack"
  shows "xml_dom_end_tag_cb (h, stack) name = Inr (h, butlast stack)
         \<and> stack_valid h (butlast stack) \<and> hd (butlast stack) = hd stack"
proof -
  from assms(2) obtain x y ys where "stack = x # y # ys"
    by (cases stack; cases "tl stack") auto
  then show ?thesis using assms(1)
    by (auto simp: xml_dom_end_tag_cb_def stack_valid_def dest: in_set_butlastD)
qed

lemma tag_text_cb_stack:
  assumes "stack_valid h stack"
  shows "\<exists>h'. xml_dom_tag_text_cb (h, stack) t = Inr (h', stack) \<and> stack_valid h' stack"
proof -
  from assms obtain p where p: "last stack = p" "p < length h" "m_type (h ! p) \<noteq> XML_DOM_INVALID"
    by (rule stack_valid_last)
  from assms have ne: "stack \<noteq> []"
    and all: "\<forall>a\<in>set stack. a < length h \<and> m_type (h ! a) \<noteq> XML_DOM_INVALID"
    by (simp_all add: stack_valid_def)
  show ?thesis
    using p ne all
    by (auto simp: xml_dom_tag_text_cb_def set_value_def deref_def stack_valid_def
          nth_list_update)
qed

lemma comment_cb_stack:
  assumes "stack_valid h stack"
  shows "\<exists>h'. xml_dom_comment_cb (h, stack) c = Inr (h', stack) \<and> stack_valid h' stack"
proof -
  from assms obtain p where p: "last stack = p" "p < length h" "m_type (h ! p) \<noteq> XML_DOM_INVALID"
    by (rule stack_valid_last)
  from assms have ne: "stack \<noteq> []"
    and all: "\<forall>a\<in>set stack. a < length h \<and> m_type (h ! a) \<noteq> XML_DOM_INVALID"
    by (simp_all add: stack_valid_def)
  show ?thesis
    using p ne all
    by (auto simp: xml_dom_comment_cb_def new_entity_def set_type_def set_value_def
          add_child_def deref_def Let_def stack_valid_def nth_append nth_list_update)
qed

lemma attribute_cb_stack:
  assumes "stack_valid h stack"
  shows "\<exists>h'. xml_dom_attribute_cb (h, stack) a v = Inr (h', stack) \<and> stack_valid h' stack"
proof -
  from assms obtain p where p: "last stack = p" "p < length h" "m_type (h ! p) \<noteq> XML_DOM_INVALID"
    by (rule stack_valid_last)
  from assms have ne: "stack \<noteq> []"
    and all: "\<forall>a\<in>set stack. a < length h \<and> m_type (h ! a) \<noteq> XML_DOM_INVALID"
    by (simp_all add: stack_valid_def)
  show ?thesis
    using p ne all
    by (auto simp: xml_dom_attribute_cb_def new_entity_def set_type_def set_name_def
          set_value_def add_child_def deref_def Let_def stack_valid_def nth_append
          nth_list_update)
qed


lemma run_callbacks_stack:
  "stack_valid h stack \<Longrightarrow> tag_depth (length stack - 1) evs = Some d \<Longrightarrow>
   \<exists>h' stack'. run_callbacks evs (h, stack) = Inr (h', stack') \<and> stack_valid h' stack'
       \<and> hd stack' = hd stack \<and> length stack' = Suc d"
proof (induction evs arbitrary: h stack)
  case Nil
  then show ?case by (cases stack) (auto simp: stack_valid_def)
next
  case (Cons ev evs)
  have ne: "stack \<noteq> []" using Cons.prems(1) by (simp add: stack_valid_def)
  show ?case
  proof (cases ev)
    case (BeginTag name)
    from begin_tag_cb_stack [OF Cons.prems(1), of name] obtain h1 where
      c: "xml_dom_begin_tag_cb (h, stack) name = Inr (h1, stack @ [length h])"
         "stack_valid h1 (stack @ [length h])"
      by blast
    have "tag_depth (length (stack @ [length h]) - 1) evs = Some d"
      using Cons.prems(2) BeginTag ne by (cases stack) simp_all
    from Cons.IH [OF c(2) this] show ?thesis
      using BeginTag c(1) ne by auto
  next
    case (EndTag name)
    with Cons.prems(2) obtain k where k: "length stack - 1 = Suc k" "tag_depth k evs = Some d"
      by (auto split: nat.splits)
    then have l2: "2 \<le> length stack" by simp
    from end_tag_cb_stack [OF Cons.prems(1) l2, of name] have
      c: "xml_dom_end_tag_cb (h, stack) name = Inr (h, butlast stack)"
         "stack_valid h (butlast stack)" "hd (butlast stack) = hd stack"
      by simp_all
    have "tag_depth (length (butlast stack) - 1) evs = Some d"
      using k by simp
    from Cons.IH [OF c(2) this] show ?thesis
      using EndTag c(1,3) by auto
  next
    case (TagText t)
    from tag_text_cb_stack [OF Cons.prems(1), of t] obtain h1 where
      c: "xml_dom_tag_text_cb (h, stack) t = Inr (h1, stack)" "stack_valid h1 stack"
      by blast
    have "tag_depth (length stack - 1) evs = Some d"
      using Cons.prems(2) TagText by simp
    from Cons.IH [OF c(2) this] show ?thesis
      using TagText c(1) by auto
  next
    case (Comment cm)
    from comment_cb_stack [OF Cons.prems(1), of cm] obtain h1 where
      c: "xml_dom_comment_cb (h, stack) cm = Inr (h1, stack)" "stack_valid h1 stack"
      by blast
    have "tag_depth (length stack - 1) evs = Some d"
      using Cons.prems(2) Comment by simp
    from Cons.IH [OF c(2) this] show ?thesis
      using Comment c(1) by auto
  next
    case (Attribute a v)
    from attribute_cb_stack [OF Cons.prems(1), of a v] obtain h1 where
      c: "xml_dom_attribute_cb (h, stack) a v = Inr (h1, stack)" "stack_valid h1 stack"
      by blast
    have "tag_depth (length stack - 1) evs = Some d"
      using Cons.prems(2) Attribute by simp
    from Cons.IH [OF c(2) this] show ?thesis
      using Attribute c(1) by auto
  qed
qed

lemma xml_dom_build_stack:
  assumes "xml_read_document n (xml_initial_state b) = Some (Inr st)"
    and "tag_depth 0 (events st) = Some d"
  shows "\<exists>h' stack. xml_dom_build n h b = Some (Inr (h', stack))
           \<and> hd stack = length h \<and> length stack = Suc d
           \<and> xml_dom_parse n h b = Some (Inr (h', length h))"
proof -
  let ?h2 = "h @ [\<lparr>m_type = XML_DOM_DOCUMENT, m_parent = None, m_child = [], m_index = - 1,
                    m_name = [], m_value = []\<rparr>]"
  have st: "set_type (fst (new_entity h)) (snd (new_entity h)) XML_DOM_DOCUMENT = Inr ?h2"
    by (simp add: new_entity_def set_type_def deref_def)
  have "stack_valid ?h2 [length h]"
    by (simp add: stack_valid_def)
  moreover have "tag_depth (length [length h] - 1) (events st) = Some d"
    using assms(2) by simp
  ultimately obtain h' stack' where
    r: "run_callbacks (events st) (?h2, [length h]) = Inr (h', stack')"
       "stack_valid h' stack'" "hd stack' = hd [length h]" "length stack' = Suc d"
    using run_callbacks_stack by blast
  have b: "xml_dom_build n h b = Some (Inr (h', stack'))"
    using assms(1) r(1) by (simp add: xml_dom_build_def new_entity_def set_type_def deref_def)
  moreover have "stack' \<noteq> []" using r(4) by auto
  ultimately show ?thesis
    using r(3,4) by (auto simp: xml_dom_parse_def)
qed

text \<open>
  C10. The claim: in the events of a successful parse the BeginTag and EndTag events are
  nested and balanced, so that the construction stack of the builder holds exactly the
  Document root when the driver has completed. The buffer \<open><a\<close> ends inside a tag. Both
  loops of \<open>xml_read_tag\<close> are left at the end of the input and the function returns
  normally: the parse succeeds with the single event BeginTag a, and the builder ends with
  the Document root and the tag on its stack. With one more space, the same unclosed tag
  is an error: \<open>xml_eat_space\<close> reaches the end of the input inside the loop and the
  next \<open>xml_peek\<close> throws.
\<close>

theorem unclosed_tag_accepted:
  "xml_read_document (n + 3) (xml_initial_state ''<a'') =
     Some (Inr \<lparr>buffer = ''<a'', pos = 2, line_number = 0, column_number = 2,
                 events = [BeginTag ''a'']\<rparr>)
   \<and> xml_dom_build (n + 3) [] ''<a'' = Some (Inr (one_child, [0, 1]))
   \<and> xml_read_document (n + 3) (xml_initial_state ''<a '') = Some (Inl (PeekOutOfRange 3 3))"
  unfolding fuel3 by (simp add: dom_eval xml_eval example_heaps)

subsection \<open>Serializing and parsing again\<close>

text \<open>
  C6. The claim: a tree built with \<open>add_tag\<close>, \<open>add_attribute\<close>, \<open>add_comment\<close> and
  value setting on a Document root, serialized and parsed again, gives a tree equal to the
  original in types, names, values and child structure. The tree here is a Document root
  with a tag \<open>a\<close>, added by \<open>add_tag\<close>, that has the attribute \<open>x\<close> with the value
  \<open>1\<close>, added by \<open>add_attribute\<close>. The serializer of the spec writes the header line and
  \<open><a x="1"/>\<close>. \<open>xml_dom_parse\<close> on that text builds a tree of the same types, names
  and child structure in which the value of the attribute is \<open>1\<close> followed by the
  character NUL: the value that \<open>xml_parse_string\<close> returns.
\<close>

theorem round_trip_changes_attribute_value:
  "add_tag [document_root] 0 ''a'' = Inr (one_child, 1)
   \<and> add_attribute one_child 1 ''x'' ''1'' = Inr (tag_with_attribute, 2)
   \<and> serialize (n + 3) tag_with_attribute 0 = Some (Inr tag_with_attribute_text)
   \<and> xml_dom_parse (n + 6) tag_with_attribute tag_with_attribute_text =
       Some (Inr (tag_with_attribute_reparsed, 3))
   \<and> tree_of (n + 3) tag_with_attribute 0 =
       Some (Node XML_DOM_DOCUMENT [] []
               [Node XML_DOM_TAG ''a'' [] [Node XML_DOM_ATTRIBUTE ''x'' ''1'' []]])
   \<and> tree_of (n + 3) tag_with_attribute_reparsed 3 =
       Some (Node XML_DOM_DOCUMENT [] []
               [Node XML_DOM_TAG ''a'' []
                  [Node XML_DOM_ATTRIBUTE ''x'' [CHR ''1'', CHR 0x00] []]])"
proof (intro conjI)
  show "add_tag [document_root] 0 ''a'' = Inr (one_child, 1)"
    by (simp add: dom_eval example_heaps)
  show "add_attribute one_child 1 ''x'' ''1'' = Inr (tag_with_attribute, 2)"
    by (simp add: dom_eval example_heaps)
  show "serialize (n + 3) tag_with_attribute 0 = Some (Inr tag_with_attribute_text)"
    unfolding fuel3 by (simp add: deref_def example_heaps)
  show "xml_dom_parse (n + 6) tag_with_attribute tag_with_attribute_text =
       Some (Inr (tag_with_attribute_reparsed, 3))"
    unfolding fuel6 by (simp add: dom_eval xml_eval example_heaps)
  show "tree_of (n + 3) tag_with_attribute 0 =
       Some (Node XML_DOM_DOCUMENT [] []
               [Node XML_DOM_TAG ''a'' [] [Node XML_DOM_ATTRIBUTE ''x'' ''1'' []]])"
    unfolding fuel3 by (simp add: example_heaps)
  show "tree_of (n + 3) tag_with_attribute_reparsed 3 =
       Some (Node XML_DOM_DOCUMENT [] []
               [Node XML_DOM_TAG ''a'' []
                  [Node XML_DOM_ATTRIBUTE ''x'' [CHR ''1'', CHR 0x00] []]])"
    unfolding fuel3 by (simp add: example_heaps)
qed

end
